theory Spec2Isabelle
  imports Main
begin

section \<open>Memory, element types, execution group and scratch buffer\<close>

text \<open>
  An array is a store from indices to values; a pointer into it is an index.  The input
  range is read from a store \<open>src\<close> that the scan does not write, the destination is
  another store: source and destination ranges do not overlap.
\<close>

type_synonym 'a mem = "nat \<Rightarrow> 'a"

text \<open>
  \<open>scan.hpp\<close> has two element types.  \<open>input_type\<close>, here \<open>'i\<close>, is the value type of the
  source iterator: the staged inputs, \<open>local_inputs\<close> and the private accumulator \<open>x\<close> of
  \<open>scan_with_buffer\<close> (line 158) have it.  \<open>intermediate_type\<close>, here \<open>'t\<close>, is the type
  that \<open>scan_intermediate\<close> selects, the \<open>result_type\<close> of \<open>binary_op\<close> when it declares
  one: \<open>sums\<close> and the staged results have it, and so have \<open>init\<close> and \<open>carry_in\<close>, since
  the call of line 180 passes \<open>buffer.sums\<close> and \<open>carry_in\<close> for the same template
  parameter \<open>T\<close>.  \<open>binary_op\<close> is taken as a function on \<open>intermediate_type\<close>, and the
  destination as a store of \<open>intermediate_type\<close> values.  Where the source passes
  \<open>binary_op\<close> a value of \<open>input_type\<close>, or stores one to \<open>sums\<close> or to the staged results,
  the value is converted by \<open>to_intermediate\<close>; where the source assigns a result of
  \<open>binary_op\<close> or a value of \<open>sums\<close> to \<open>x\<close>, it is converted by \<open>to_input\<close>, which may
  lose information (an \<open>int\<close> sum assigned to an \<open>unsigned char\<close>).  The conditional of
  line 168 is taken to leave \<open>local_inputs[i]\<close> as it is.
\<close>

record ('i, 't) conversions =
  to_intermediate :: "'i \<Rightarrow> 't"
  to_input :: "'t \<Rightarrow> 'i"

text \<open>
  Sizes.  \<open>size_type\<close> is \<open>int\<close>, of 32 bits.  \<open>groupsize\<close>, \<open>grainsize\<close>, their product and
  the indices of workers and slots are natural numbers here: a group is instantiated
  with \<open>groupsize * grainsize\<close> far below \<open>2 ^ 31\<close>.  The length \<open>last - first\<close> of the
  range is a run-time value of 64 bits, which line 145 converts to \<open>size_type\<close>, and the
  difference of line 155 is computed in \<open>std::size_t\<close> and converted to \<open>size_type\<close>:
  \<open>to_size_type\<close> is that conversion, the value modulo \<open>2 ^ 32\<close> read as a signed number.
\<close>

definition to_size_type :: "int \<Rightarrow> int" where
  "to_size_type z = (z + 2 ^ 31) mod 2 ^ 32 - 2 ^ 31"

text \<open>
  \<open>struct scan_buffer\<close>: \<open>sums[2 * groupsize]\<close> and the union of \<open>inputs\<close> and \<open>results\<close>,
  \<open>groupsize * grainsize\<close> elements each.  The two members of the union are kept as two
  stores.  In the source they share their bytes, so that a store through one member
  changes what the other one reads; the scan reads a slot of a member only after it has
  written that slot through the same member in the same tile (line 148 before 167,
  line 199 before 210), and lemma \<open>scan_tile_stage_indep\<close> below shows that what the
  two members hold on entry to a tile reaches neither the destination nor the carry.
\<close>

record ('i, 't) scan_buffer =
  sums :: "'t mem"
  inputs :: "'i mem"
  results :: "'t mem"

text \<open>
  Modelled from the spec: the execution group (\<open>bulk/execution_group.hpp\<close> is not among
  the sources).  A group is a team of \<open>n\<close> workers with indices \<open>0 ..< n\<close>
  (\<open>g.this_exec.index()\<close>); \<open>g.wait()\<close> is a barrier that no worker passes before all have
  reached it.  The code between two barriers is a phase: \<open>for_each_worker n body m\<close> runs
  the phase \<open>body tid\<close> of every worker, in index order, on the shared memory \<open>m\<close>, and
  returns each worker's private result with the memory they leave.
\<close>

fun for_each_worker :: "nat \<Rightarrow> (nat \<Rightarrow> 'm \<Rightarrow> 'l \<times> 'm) \<Rightarrow> 'm \<Rightarrow> 'l list \<times> 'm" where
  "for_each_worker 0 body m = ([], m)"
| "for_each_worker (Suc n) body m =
     (case for_each_worker n body m of (ls, m') \<Rightarrow>
        case body n m' of (l, m'') \<Rightarrow> (ls @ [l], m''))"

text \<open>
  Modelled from the spec: \<open>bulk::copy_n(g, first, n, result)\<close> (\<open>bulk/copy.hpp\<close> is not
  among the sources), the collective copy of \<open>n\<close> elements from the range at \<open>first\<close> of
  one store to the range at \<open>result\<close> of another, ending in a barrier.  The count is a
  \<open>size_type\<close>; with a count of zero or below nothing is copied.
\<close>

definition copy_n :: "'a mem \<Rightarrow> nat \<Rightarrow> int \<Rightarrow> 'a mem \<Rightarrow> nat \<Rightarrow> 'a mem" where
  "copy_n src first n dst result =
     (\<lambda>a. if result \<le> a \<and> int a < int result + n then src (first + (a - result)) else dst a)"


section \<open>The small group-wide exclusive scan\<close>

text \<open>
  Lines 48 to 53 of \<open>scan.hpp\<close>: worker 0 folds \<open>init\<close> into \<open>first[0]\<close>, then every
  worker loads \<open>first[tid]\<close> into its private \<open>x\<close>.
\<close>

definition small_scan_load ::
  "('a \<Rightarrow> 'a \<Rightarrow> 'a) \<Rightarrow> nat \<Rightarrow> 'a \<Rightarrow> nat \<Rightarrow> 'a mem \<Rightarrow> 'a \<times> 'a mem" where
  "small_scan_load binary_op first init tid m =
     (let m' = (if tid = 0 then m(first + 0 := binary_op init (m (first + 0))) else m)
      in (m' (first + tid), m'))"

text \<open>
  One round of the loop, lines 59 to 66.  \<open>x\<close> holds the private values of all workers
  before the round; \<open>ping\<close> and \<open>pong\<close> are the pointers before \<open>thrust::swap\<close>, so the
  store \<open>ping[tid] = x\<close> after the swap goes to \<open>pong + tid\<close>.
\<close>

definition small_scan_round ::
  "('a \<Rightarrow> 'a \<Rightarrow> 'a) \<Rightarrow> nat \<Rightarrow> nat \<Rightarrow> nat \<Rightarrow> 'a list \<Rightarrow> nat \<Rightarrow> 'a mem \<Rightarrow> 'a \<times> 'a mem" where
  "small_scan_round binary_op offset ping pong x tid m =
     (let x' = (if offset \<le> tid then binary_op (m (ping + (tid - offset))) (x ! tid)
                else x ! tid)
      in (x', m(pong + tid := x')))"

text \<open>
  The loop \<open>for(offset = 1; offset < size; offset += offset)\<close>.  \<open>offset\<close> starts at 1
  and doubles, so \<open>0 < offset\<close> holds at every test; it is written in the guard for the
  termination proof.  The result is the final \<open>ping\<close> with the private values and memory.
\<close>

function small_scan_rounds ::
  "nat \<Rightarrow> ('a \<Rightarrow> 'a \<Rightarrow> 'a) \<Rightarrow> nat \<Rightarrow> nat \<Rightarrow> nat \<Rightarrow> 'a list \<Rightarrow> 'a mem \<Rightarrow> nat \<times> 'a list \<times> 'a mem" where
  "small_scan_rounds sz binary_op offset ping pong x m =
     (if 0 < offset \<and> offset < sz then
        (case for_each_worker sz (small_scan_round binary_op offset ping pong x) m of
           (x', m') \<Rightarrow> small_scan_rounds sz binary_op (offset + offset) pong ping x' m')
      else (ping, x, m))"
  by pat_completeness auto
termination
  by (relation "measure (\<lambda>(sz, binary_op, offset, ping, pong, x, m). sz - offset)") auto

declare small_scan_rounds.simps [simp del]

text \<open>
  \<open>small_inplace_exclusive_scan_with_buffer<size>(g, first, init, buffer, binary_op)\<close> on
  the store \<open>m\<close> that \<open>first\<close> and \<open>buffer\<close> point into.  It returns \<open>result\<close> and the store.
\<close>

definition small_inplace_exclusive_scan_with_buffer ::
  "nat \<Rightarrow> 'a mem \<Rightarrow> nat \<Rightarrow> 'a \<Rightarrow> nat \<Rightarrow> ('a \<Rightarrow> 'a \<Rightarrow> 'a) \<Rightarrow> 'a \<times> 'a mem" where
  "small_inplace_exclusive_scan_with_buffer sz m first init buffer binary_op =
     (case for_each_worker sz (small_scan_load binary_op first init) m of (x, m1) \<Rightarrow>
      case small_scan_rounds sz binary_op 1 first buffer x m1 of (ping, x2, m2) \<Rightarrow>
      let result = m2 (ping + (sz - 1)) in
      case for_each_worker sz
             (\<lambda>tid m. ((if tid = 0 then init else m (ping + (tid - 1))), m)) m2 of (x3, m3) \<Rightarrow>
      case for_each_worker sz (\<lambda>tid m. ((), m(first + tid := x3 ! tid))) m3 of (u, m4) \<Rightarrow>
      (result, m4))"



section \<open>The tiled scan driver\<close>

text \<open>
  Line 155, \<open>local_size = max(0, min(grainsize, partition_size - grainsize * tid))\<close>.
  \<open>grainsize\<close> is a \<open>std::size_t\<close>, so the difference is computed without sign, and
  \<open>min<size_type>\<close> converts it to \<open>size_type\<close>: a difference below \<open>- 2 ^ 31\<close> comes out
  positive.
\<close>

definition local_size_of :: "nat \<Rightarrow> int \<Rightarrow> nat \<Rightarrow> int" where
  "local_size_of grainsize partition_size tid =
     max 0 (min (int grainsize) (to_size_type (partition_size - int grainsize * int tid)))"

text \<open>
  The fused copy and accumulate loop, lines 162 to 170, of one worker: first its body at
  index \<open>i\<close>, then the loop.  The private \<open>local_inputs\<close> and \<open>x\<close> are of \<open>input_type\<close> and
  are declared without initialiser; the pair they start from is given by the parameter
  \<open>uninit\<close> of the functions below, which holds an arbitrary pair for every iteration of
  the tile loop (named by its \<open>first\<close>) and every worker.  Line 168 assigns the result of
  \<open>binary_op\<close> to \<open>x\<close>, which converts it to \<open>input_type\<close>.
\<close>

definition accumulate_step ::
  "('i, 't) conversions \<Rightarrow> ('t \<Rightarrow> 't \<Rightarrow> 't) \<Rightarrow> 'i mem \<Rightarrow> nat \<Rightarrow> int \<Rightarrow> nat \<Rightarrow> 'i mem \<times> 'i
     \<Rightarrow> 'i mem \<times> 'i" where
  "accumulate_step cv binary_op stage_inputs local_offset partition_size i =
     (\<lambda>(local_inputs, x).
        let index = local_offset + i in
        if int index < partition_size then
          let local_inputs' = local_inputs(i := stage_inputs index) in
          (local_inputs',
           if i \<noteq> 0
           then to_input cv (binary_op (to_intermediate cv x)
                               (to_intermediate cv (local_inputs' i)))
           else local_inputs' i)
        else (local_inputs, x))"

definition accumulate ::
  "('i, 't) conversions \<Rightarrow> ('t \<Rightarrow> 't \<Rightarrow> 't) \<Rightarrow> nat \<Rightarrow> 'i mem \<Rightarrow> nat \<Rightarrow> int \<Rightarrow> 'i mem \<times> 'i
     \<Rightarrow> 'i mem \<times> 'i" where
  "accumulate cv binary_op grainsize stage_inputs local_offset partition_size =
     fold (accumulate_step cv binary_op stage_inputs local_offset partition_size)
       [0..<grainsize]"

text \<open>
  Lines 151 to 175: the phase of worker \<open>tid\<close> up to the first barrier.  It reads the
  staged inputs and writes \<open>sums[tid] = x\<close>, a conversion to \<open>intermediate_type\<close>, only if
  its slice is not empty.
\<close>

definition local_sum_phase ::
  "('i, 't) conversions \<Rightarrow> ('t \<Rightarrow> 't \<Rightarrow> 't) \<Rightarrow> nat \<Rightarrow> 'i mem \<Rightarrow> int \<Rightarrow> (nat \<Rightarrow> 'i mem \<times> 'i)
     \<Rightarrow> nat \<Rightarrow> 't mem \<Rightarrow> ('i mem \<times> 'i \<times> int) \<times> 't mem" where
  "local_sum_phase cv binary_op grainsize stage_inputs partition_size uninit tid sums_mem =
     (let local_offset = grainsize * tid;
          local_size = local_size_of grainsize partition_size tid
      in case accumulate cv binary_op grainsize stage_inputs local_offset partition_size
                (uninit tid) of
           (local_inputs, x) \<Rightarrow>
             ((local_inputs, x, local_size),
              if local_size \<noteq> 0 then sums_mem(tid := to_intermediate cv x) else sums_mem))"

text \<open>
  The scan loop, lines 189 to 206, of one worker, body and loop: combine then store when
  \<open>inclusive\<close>, store then combine otherwise.  The combination is assigned to the
  \<open>input_type\<close> variable \<open>x\<close> (lines 196 and 203), and the store of line 199 converts \<open>x\<close>
  to \<open>intermediate_type\<close>.
\<close>

definition local_scan_step ::
  "bool \<Rightarrow> ('i, 't) conversions \<Rightarrow> ('t \<Rightarrow> 't \<Rightarrow> 't) \<Rightarrow> 'i mem \<Rightarrow> nat \<Rightarrow> int \<Rightarrow> nat
     \<Rightarrow> 'i \<times> 't mem \<Rightarrow> 'i \<times> 't mem" where
  "local_scan_step inclusive cv binary_op local_inputs local_offset partition_size i =
     (\<lambda>(x, stage_results).
        let index = local_offset + i in
        if int index < partition_size then
          let x1 = (if inclusive
                    then to_input cv (binary_op (to_intermediate cv x)
                                        (to_intermediate cv (local_inputs i)))
                    else x);
              stage_results' = stage_results(index := to_intermediate cv x1);
              x2 = (if \<not> inclusive
                    then to_input cv (binary_op (to_intermediate cv x1)
                                        (to_intermediate cv (local_inputs i)))
                    else x1)
          in (x2, stage_results')
        else (x, stage_results))"

definition local_scan ::
  "bool \<Rightarrow> ('i, 't) conversions \<Rightarrow> ('t \<Rightarrow> 't \<Rightarrow> 't) \<Rightarrow> nat \<Rightarrow> 'i mem \<Rightarrow> nat \<Rightarrow> int
     \<Rightarrow> 'i \<times> 't mem \<Rightarrow> 'i \<times> 't mem" where
  "local_scan inclusive cv binary_op grainsize local_inputs local_offset partition_size =
     fold (local_scan_step inclusive cv binary_op local_inputs local_offset partition_size)
       [0..<grainsize]"

text \<open>
  Lines 182 to 206: the phase of worker \<open>tid\<close> after the small scan.  \<open>locals\<close> holds
  what every worker kept from its first phase.  Line 184, \<open>x = buffer.sums[tid]\<close>,
  converts the exclusive prefix to \<open>input_type\<close>.
\<close>

definition local_scan_phase ::
  "bool \<Rightarrow> ('i, 't) conversions \<Rightarrow> ('t \<Rightarrow> 't \<Rightarrow> 't) \<Rightarrow> nat \<Rightarrow> 't mem \<Rightarrow> int
     \<Rightarrow> ('i mem \<times> 'i \<times> int) list \<Rightarrow> nat \<Rightarrow> 't mem \<Rightarrow> unit \<times> 't mem" where
  "local_scan_phase inclusive cv binary_op grainsize sums_mem partition_size locals tid
     stage_results =
     (case locals ! tid of (local_inputs, x, local_size) \<Rightarrow>
        let local_offset = grainsize * tid;
            x' = (if local_size \<noteq> 0 then to_input cv (sums_mem tid) else x)
        in ((), snd (local_scan inclusive cv binary_op grainsize local_inputs local_offset
                       partition_size (x', stage_results))))"

text \<open>
  Line 145: \<open>partition_size = min<size_type>(elements_per_group, last - first)\<close>, with the
  conversion of \<open>last - first\<close> to \<open>size_type\<close>.
\<close>

definition partition_size_of :: "nat \<Rightarrow> nat \<Rightarrow> nat \<Rightarrow> nat \<Rightarrow> int" where
  "partition_size_of groupsize grainsize first lst =
     min (int (groupsize * grainsize)) (to_size_type (int (lst - first)))"

text \<open>
  The body of the tile loop, lines 145 to 210.  \<open>src\<close> is the store the input range
  \<open>[first, last)\<close> lies in, \<open>dest\<close> the store \<open>result\<close> points into.  It returns the new
  \<open>carry_in\<close>, the buffer and the destination store.
\<close>

definition scan_tile ::
  "bool \<Rightarrow> ('i, 't) conversions \<Rightarrow> nat \<Rightarrow> nat \<Rightarrow> 'i mem \<Rightarrow> nat \<Rightarrow> nat \<Rightarrow> 't mem \<Rightarrow> nat \<Rightarrow> 't
     \<Rightarrow> ('t \<Rightarrow> 't \<Rightarrow> 't) \<Rightarrow> ('i, 't) scan_buffer \<Rightarrow> (nat \<Rightarrow> nat \<Rightarrow> 'i mem \<times> 'i)
     \<Rightarrow> 't \<times> ('i, 't) scan_buffer \<times> 't mem" where
  "scan_tile inclusive cv groupsize grainsize src first lst dest result carry_in binary_op
     buffer uninit =
     (let partition_size = partition_size_of groupsize grainsize first lst;
          stage_inputs = copy_n src first partition_size (inputs buffer) 0
      in case for_each_worker groupsize
                (local_sum_phase cv binary_op grainsize stage_inputs partition_size
                   (uninit first))
                (sums buffer) of
        (locals, sums1) \<Rightarrow>
      case small_inplace_exclusive_scan_with_buffer groupsize sums1 0 carry_in groupsize
             binary_op of
        (carry_out, sums2) \<Rightarrow>
      case for_each_worker groupsize
             (local_scan_phase inclusive cv binary_op grainsize sums2 partition_size locals)
             (results buffer) of
        (u, stage_results) \<Rightarrow>
      (carry_out, \<lparr>sums = sums2, inputs = stage_inputs, results = stage_results\<rparr>,
       copy_n stage_results 0 partition_size dest result))"

text \<open>
  \<open>scan_with_buffer<inclusive>\<close>: the loop
  \<open>for(; first < last; first += elements_per_group, result += elements_per_group)\<close>.
  With \<open>groupsize * grainsize = 0\<close> and a non-empty range it never ends, which is the
  value \<open>None\<close>.  It returns the destination store.
\<close>

partial_function (option) scan_with_buffer ::
  "bool \<Rightarrow> ('i, 't) conversions \<Rightarrow> nat \<Rightarrow> nat \<Rightarrow> 'i mem \<Rightarrow> nat \<Rightarrow> nat \<Rightarrow> 't mem \<Rightarrow> nat \<Rightarrow> 't
     \<Rightarrow> ('t \<Rightarrow> 't \<Rightarrow> 't) \<Rightarrow> ('i, 't) scan_buffer \<Rightarrow> (nat \<Rightarrow> nat \<Rightarrow> 'i mem \<times> 'i)
     \<Rightarrow> 't mem option" where
  "scan_with_buffer inclusive cv groupsize grainsize src first lst dest result carry_in
     binary_op buffer uninit =
     (if first < lst then
        (case scan_tile inclusive cv groupsize grainsize src first lst dest result carry_in
                binary_op buffer uninit of
           (carry_out, buffer', dest') \<Rightarrow>
             scan_with_buffer inclusive cv groupsize grainsize src
               (first + groupsize * grainsize) lst dest' (result + groupsize * grainsize)
               carry_out binary_op buffer' uninit)
      else Some dest)"

declare scan_with_buffer.simps [code]


section \<open>Entry points\<close>

text \<open>
  Modelled from the spec: the allocator (\<open>bulk/malloc.hpp\<close> is not among the sources).
  \<open>bulk::malloc\<close> returns a usable block, tagged as fast on-chip memory (\<open>is_shared\<close>) or
  as the fallback pool; its contents are whatever the memory held.  \<open>on_chip_cast\<close>
  changes the address space of the pointer and nothing of what it points to;
  \<open>bulk::free\<close> has no effect on the destination.
\<close>

record ('i, 't) allocation =
  is_shared :: bool
  block :: "('i, 't) scan_buffer"

definition on_chip_cast :: "('i, 't) scan_buffer \<Rightarrow> ('i, 't) scan_buffer" where
  "on_chip_cast buffer = buffer"

text \<open>
  \<open>inclusive_scan(g, first, last, result, init, binary_op)\<close> and \<open>exclusive_scan\<close>, in
  the variant for \<open>__CUDA_ARCH__ >= 200\<close>; \<open>allocated\<close> is what \<open>bulk::malloc\<close> returned.
  The other variant calls \<open>scan_with_buffer\<close> in the same way on a \<open>__shared__\<close> buffer
  that is uninitialised as well.
\<close>

definition inclusive_scan ::
  "('i, 't) conversions \<Rightarrow> nat \<Rightarrow> nat \<Rightarrow> 'i mem \<Rightarrow> nat \<Rightarrow> nat \<Rightarrow> 't mem \<Rightarrow> nat \<Rightarrow> 't
     \<Rightarrow> ('t \<Rightarrow> 't \<Rightarrow> 't) \<Rightarrow> ('i, 't) allocation \<Rightarrow> (nat \<Rightarrow> nat \<Rightarrow> 'i mem \<times> 'i)
     \<Rightarrow> 't mem option" where
  "inclusive_scan cv groupsize grainsize src first lst dest result init binary_op allocated
     uninit =
     (if is_shared allocated then
        scan_with_buffer True cv groupsize grainsize src first lst dest result init
          binary_op (on_chip_cast (block allocated)) uninit
      else
        scan_with_buffer True cv groupsize grainsize src first lst dest result init
          binary_op (block allocated) uninit)"

definition exclusive_scan ::
  "('i, 't) conversions \<Rightarrow> nat \<Rightarrow> nat \<Rightarrow> 'i mem \<Rightarrow> nat \<Rightarrow> nat \<Rightarrow> 't mem \<Rightarrow> nat \<Rightarrow> 't
     \<Rightarrow> ('t \<Rightarrow> 't \<Rightarrow> 't) \<Rightarrow> ('i, 't) allocation \<Rightarrow> (nat \<Rightarrow> nat \<Rightarrow> 'i mem \<times> 'i)
     \<Rightarrow> 't mem option" where
  "exclusive_scan cv groupsize grainsize src first lst dest result init binary_op allocated
     uninit =
     (if is_shared allocated then
        scan_with_buffer False cv groupsize grainsize src first lst dest result init
          binary_op (on_chip_cast (block allocated)) uninit
      else
        scan_with_buffer False cv groupsize grainsize src first lst dest result init
          binary_op (block allocated) uninit)"

text \<open>
  The overload of \<open>inclusive_scan\<close> without \<open>init\<close>, lines 259 to 279: worker 0 writes
  \<open>*first\<close> to \<open>*result\<close> and the rest is scanned with \<open>*first\<close> as \<open>init\<close>.  It returns
  the destination store and the iterator \<open>result + (last - first)\<close>.  Its \<open>init\<close> has
  \<open>input_type\<close>, and \<open>init\<close> has \<open>intermediate_type\<close> in the scan it calls: the overload
  is instantiated with the two types equal, and the conversions are identities.
\<close>

definition same_type :: "('a, 'a) conversions" where
  "same_type = \<lparr>to_intermediate = (\<lambda>v. v), to_input = (\<lambda>v. v)\<rparr>"

definition inclusive_scan_no_init ::
  "nat \<Rightarrow> nat \<Rightarrow> 'a mem \<Rightarrow> nat \<Rightarrow> nat \<Rightarrow> 'a mem \<Rightarrow> nat \<Rightarrow> ('a \<Rightarrow> 'a \<Rightarrow> 'a)
     \<Rightarrow> ('a, 'a) allocation \<Rightarrow> (nat \<Rightarrow> nat \<Rightarrow> 'a mem \<times> 'a) \<Rightarrow> ('a mem \<times> nat) option" where
  "inclusive_scan_no_init groupsize grainsize src first lst dest result binary_op allocated
     uninit =
     (if first < lst then
        (let init = src first;
             dest1 = snd (for_each_worker groupsize
                            (\<lambda>tid d. ((), if tid = 0 then d(result := init) else d)) dest)
         in case inclusive_scan same_type groupsize grainsize src (first + 1) lst dest1
                   (result + 1) init binary_op allocated uninit of
              None \<Rightarrow> None
            | Some dest2 \<Rightarrow> Some (dest2, result + (lst - first)))
      else Some (dest, result + (lst - first)))"


section \<open>The loop variables at each test of the tile loop\<close>


text \<open>
  The value that a returned destination store holds at an address, that value combined
  with another one, and the carry of a loop state.
\<close>

definition output_at :: "'t mem option \<Rightarrow> nat \<Rightarrow> 't option" where
  "output_at r a = (case r of None \<Rightarrow> None | Some d \<Rightarrow> Some (d a))"




section \<open>Specification vocabulary\<close>

text \<open>
  The words of the specification: an associative operation, the input sequence of the
  range \<open>[first, last)\<close>, the fold of a non-empty sequence without an initial value
  (\<open>fold1\<close>, which the theorems apply to non-empty sequences only), and the reference
  sequential prefix scans that the tiled scan is compared with.
\<close>

definition associative :: "('a \<Rightarrow> 'a \<Rightarrow> 'a) \<Rightarrow> bool" where
  "associative f = (\<forall>a b c. f (f a b) c = f a (f b c))"

definition input_range :: "'a mem \<Rightarrow> nat \<Rightarrow> nat \<Rightarrow> 'a list" where
  "input_range src first lst = map src [first..<lst]"

fun fold1 :: "('a \<Rightarrow> 'a \<Rightarrow> 'a) \<Rightarrow> 'a list \<Rightarrow> 'a" where
  "fold1 f (x # xs) = foldl f x xs"

fun sequential_inclusive_scan :: "('a \<Rightarrow> 'a \<Rightarrow> 'a) \<Rightarrow> 'a \<Rightarrow> 'a list \<Rightarrow> 'a list" where
  "sequential_inclusive_scan f acc [] = []"
| "sequential_inclusive_scan f acc (x # xs) = f acc x # sequential_inclusive_scan f (f acc x) xs"

fun sequential_exclusive_scan :: "('a \<Rightarrow> 'a \<Rightarrow> 'a) \<Rightarrow> 'a \<Rightarrow> 'a list \<Rightarrow> 'a list" where
  "sequential_exclusive_scan f acc [] = []"
| "sequential_exclusive_scan f acc (x # xs) = acc # sequential_exclusive_scan f (f acc x) xs"

text \<open>
  The conversion to \<open>input_type\<close> loses nothing: every value of \<open>intermediate_type\<close> comes
  back from it unchanged, as when the two types are the same.
\<close>

definition lossless :: "('i, 't) conversions \<Rightarrow> bool" where
  "lossless cv = (\<forall>t. to_intermediate cv (to_input cv t) = t)"

text \<open>
  Two ranges of \<open>sz\<close> elements at \<open>p\<close> and \<open>q\<close> of one store do not overlap, as
  \<open>buffer.sums\<close> and \<open>buffer.sums + groupsize\<close> do not.
\<close>

definition disjoint_regions :: "nat \<Rightarrow> nat \<Rightarrow> nat \<Rightarrow> bool" where
  "disjoint_regions sz p q = (p + sz \<le> q \<or> q + sz \<le> p)"


section \<open>Functions of the proofs\<close>

text \<open>
  What the rounds of the small scan compute on the private values \<open>X tid\<close> of the
  workers, without the memory: one round, and the loop over the doubling \<open>offset\<close>.
\<close>

definition hs_round :: "('a \<Rightarrow> 'a \<Rightarrow> 'a) \<Rightarrow> nat \<Rightarrow> (nat \<Rightarrow> 'a) \<Rightarrow> nat \<Rightarrow> 'a" where
  "hs_round binary_op offset X = (\<lambda>t. if offset \<le> t then binary_op (X (t - offset)) (X t) else X t)"

function hs_rounds :: "nat \<Rightarrow> ('a \<Rightarrow> 'a \<Rightarrow> 'a) \<Rightarrow> nat \<Rightarrow> (nat \<Rightarrow> 'a) \<Rightarrow> nat \<Rightarrow> 'a" where
  "hs_rounds sz binary_op offset X =
     (if 0 < offset \<and> offset < sz then hs_rounds sz binary_op (offset + offset) (hs_round binary_op offset X)
      else X)"
  by pat_completeness auto
termination
  by (relation "measure (\<lambda>(sz, binary_op, offset, X). sz - offset)") auto

declare hs_rounds.simps [simp del]

text \<open>The fold of \<open>V a, \<dots>, V b\<close> from the left.\<close>

definition seg :: "('a \<Rightarrow> 'a \<Rightarrow> 'a) \<Rightarrow> (nat \<Rightarrow> 'a) \<Rightarrow> nat \<Rightarrow> nat \<Rightarrow> 'a" where
  "seg f V a b = foldl f (V a) (map V [Suc a..<Suc b])"

text \<open>
  The operation that the private accumulator \<open>x\<close> goes through: \<open>binary_op\<close> on the
  converted arguments, converted back.
\<close>

definition narrowed_op :: "('i, 't) conversions \<Rightarrow> ('t \<Rightarrow> 't \<Rightarrow> 't) \<Rightarrow> 'i \<Rightarrow> 'i \<Rightarrow> 'i" where
  "narrowed_op cv f = (\<lambda>x y. to_input cv (f (to_intermediate cv x) (to_intermediate cv y)))"

text \<open>
  The values of one tile in terms of its elements \<open>e 0, \<dots>, e (ps - 1)\<close>: the accumulator
  of worker \<open>t\<close> after its slice, \<open>sums\<close> after the first phase (where \<open>ux t\<close> is what the
  accumulator of worker \<open>t\<close> held at its declaration and \<open>s0\<close> what \<open>sums\<close> held before),
  the result of the rounds on it, the exclusive prefixes that the small scan leaves in
  \<open>sums\<close>, and the value staged for position \<open>j\<close>.  \<open>slice_fold\<close> is the fold of a slice
  by the operation itself.
\<close>

definition slice_sum ::
  "('i, 't) conversions \<Rightarrow> ('t \<Rightarrow> 't \<Rightarrow> 't) \<Rightarrow> nat \<Rightarrow> (nat \<Rightarrow> 'i) \<Rightarrow> nat \<Rightarrow> nat \<Rightarrow> 'i" where
  "slice_sum cv f G e ps t =
     foldl (narrowed_op cv f) (e (G * t)) (map (\<lambda>i. e (G * t + i)) [1..<min G (ps - G * t)])"

definition tile_sums ::
  "('i, 't) conversions \<Rightarrow> ('t \<Rightarrow> 't \<Rightarrow> 't) \<Rightarrow> nat \<Rightarrow> nat \<Rightarrow> (nat \<Rightarrow> 'i) \<Rightarrow> int \<Rightarrow> (nat \<Rightarrow> 'i)
     \<Rightarrow> (nat \<Rightarrow> 't) \<Rightarrow> nat \<Rightarrow> 't" where
  "tile_sums cv f W G e ps ux s0 =
     (\<lambda>t. if t < W \<and> local_size_of G ps t \<noteq> 0
          then to_intermediate cv
                 (if G * t < nat ps then slice_sum cv f G e (nat ps) t else ux t)
          else s0 t)"

definition tile_scanned :: "('a \<Rightarrow> 'a \<Rightarrow> 'a) \<Rightarrow> nat \<Rightarrow> 'a \<Rightarrow> (nat \<Rightarrow> 'a) \<Rightarrow> nat \<Rightarrow> 'a" where
  "tile_scanned f W carry s = hs_rounds W f 1 (\<lambda>u. if u = 0 then f carry (s 0) else s u)"

definition tile_prefix :: "('a \<Rightarrow> 'a \<Rightarrow> 'a) \<Rightarrow> nat \<Rightarrow> 'a \<Rightarrow> (nat \<Rightarrow> 'a) \<Rightarrow> nat \<Rightarrow> 'a" where
  "tile_prefix f W carry s = (\<lambda>t. if t = 0 then carry else tile_scanned f W carry s (t - 1))"

definition tile_out ::
  "bool \<Rightarrow> ('i, 't) conversions \<Rightarrow> ('t \<Rightarrow> 't \<Rightarrow> 't) \<Rightarrow> nat \<Rightarrow> (nat \<Rightarrow> 'i) \<Rightarrow> (nat \<Rightarrow> 't) \<Rightarrow> nat
     \<Rightarrow> 't" where
  "tile_out inclusive cv f G e P =
     (\<lambda>j. to_intermediate cv
            (foldl (narrowed_op cv f) (to_input cv (P (j div G)))
               (map (\<lambda>i. e (G * (j div G) + i))
                  [0..<j mod G + (if inclusive then 1 else 0)])))"

definition slice_fold :: "('a \<Rightarrow> 'a \<Rightarrow> 'a) \<Rightarrow> nat \<Rightarrow> (nat \<Rightarrow> 'a) \<Rightarrow> nat \<Rightarrow> nat \<Rightarrow> 'a" where
  "slice_fold f G e ps t = foldl f (e (G * t)) (map (\<lambda>i. e (G * t + i)) [1..<min G (ps - G * t)])"


section \<open>Concrete scenarios\<close>

text \<open>
  The input \<open>[1, 2, 3, 4, 5]\<close> of the specification with integer addition, input and
  intermediate type the same, a destination filled with \<open>-1\<close>, scratch memory and private
  variables filled with arbitrary values, and a \<open>sums\<close> array of four values followed by
  four stale ones.
\<close>

definition example_src :: "int mem" where
  "example_src = (\<lambda>i. [1, 2, 3, 4, 5] ! i)"

definition example_dest :: "int mem" where
  "example_dest = (\<lambda>a. - 1)"

definition example_allocation :: "bool \<Rightarrow> int \<Rightarrow> (int, int) allocation" where
  "example_allocation shared junk =
     \<lparr>is_shared = shared,
      block = \<lparr>sums = (\<lambda>a. junk), inputs = (\<lambda>a. junk + 2), results = (\<lambda>a. junk + 1)\<rparr>\<rparr>"

definition example_uninit :: "nat \<Rightarrow> nat \<Rightarrow> int mem \<times> int" where
  "example_uninit = (\<lambda>first tid. ((\<lambda>i. 99 + int tid), 55 + int first))"

definition example_sums :: "int mem" where
  "example_sums = (\<lambda>a. [3, 4, 5, 6, 70, 80, 90, 100] ! a)"





text \<open>A range of \<open>2 ^ 31\<close> elements, all 1.\<close>

definition ones_src :: "int mem" where
  "ones_src = (\<lambda>i. 1)"

definition long_range :: nat where
  "long_range = 2 ^ 31"

section \<open>Phases of the small scan\<close>

lemma for_each_worker_length: "length (fst (for_each_worker n body m)) = n"
  by (induction n) (auto split: prod.splits)

lemma for_each_worker_read:
  "for_each_worker n (\<lambda>tid m. (f tid m, m)) m = (map (\<lambda>t. f t m) [0..<n], m)"
  by (induction n) auto

lemma for_each_worker_write:
  "for_each_worker n (\<lambda>tid m. ((), m(p + tid := g tid))) m =
     (replicate n (), \<lambda>a. if p \<le> a \<and> a < p + n then g (a - p) else m a)"
proof (induction n)
  case 0
  show ?case by (auto simp: fun_eq_iff)
next
  case (Suc n)
  then show ?case by (auto simp: replicate_append_same fun_eq_iff)
qed

lemma small_scan_load_sweep:
  "for_each_worker n (small_scan_load binary_op first init) m =
     (map (\<lambda>t. if t = 0 then binary_op init (m first) else m (first + t)) [0..<n],
      if n = 0 then m else m(first := binary_op init (m first)))"
proof (induction n)
  case 0
  show ?case by simp
next
  case (Suc n)
  then show ?case by (cases "n = 0") (auto simp: small_scan_load_def fun_eq_iff)
qed

lemma small_scan_round_sweep:
  assumes dis: "disjoint_regions sz ping pong"
    and x: "\<forall>t<sz. x ! t = X t"
    and m: "\<forall>t<sz. m (ping + t) = X t"
  shows "n \<le> sz \<Longrightarrow>
     for_each_worker n (small_scan_round binary_op offset ping pong x) m =
       (map (hs_round binary_op offset X) [0..<n],
        \<lambda>a. if pong \<le> a \<and> a < pong + n then hs_round binary_op offset X (a - pong) else m a)"
proof (induction n)
  case 0
  show ?case by (auto simp: fun_eq_iff)
next
  case (Suc n)
  let ?m = "\<lambda>a. if pong \<le> a \<and> a < pong + n then hs_round binary_op offset X (a - pong) else m a"
  from Suc.prems have n: "n < sz" by simp
  have rd: "?m (ping + (n - offset)) = X (n - offset)" if "offset \<le> n"
  proof -
    have "n - offset < sz" using n by simp
    with m have "m (ping + (n - offset)) = X (n - offset)" by blast
    moreover have "\<not> (pong \<le> ping + (n - offset) \<and> ping + (n - offset) < pong + n)"
      using dis n that unfolding disjoint_regions_def by arith
    ultimately show ?thesis by auto
  qed
  have val: "fst (small_scan_round binary_op offset ping pong x n ?m) = hs_round binary_op offset X n"
    using rd x n by (simp add: small_scan_round_def hs_round_def Let_def)
  have st: "snd (small_scan_round binary_op offset ping pong x n ?m) =
      (\<lambda>a. if pong \<le> a \<and> a < pong + Suc n then hs_round binary_op offset X (a - pong) else m a)"
    unfolding small_scan_round_def Let_def snd_conv
    apply (rule ext)
    using rd x n by (auto simp: hs_round_def)
  from Suc.IH n have "for_each_worker n (small_scan_round binary_op offset ping pong x) m =
       (map (hs_round binary_op offset X) [0..<n], ?m)" by simp
  then show ?case using val st by (simp add: split_beta)
qed


lemma small_scan_rounds_closed:
  assumes "disjoint_regions sz ping pong"
    and "\<forall>t<sz. x ! t = X t"
    and "\<forall>t<sz. m (ping + t) = X t"
  shows "\<exists>ping' x' m'. small_scan_rounds sz binary_op offset ping pong x m = (ping', x', m')
           \<and> (ping' = ping \<or> ping' = pong)
           \<and> (\<forall>t<sz. m' (ping' + t) = hs_rounds sz binary_op offset X t)
           \<and> (\<forall>a. \<not> (ping \<le> a \<and> a < ping + sz) \<and> \<not> (pong \<le> a \<and> a < pong + sz) \<longrightarrow> m' a = m a)"
  using assms
proof (induction sz binary_op offset ping pong x m arbitrary: X rule: small_scan_rounds.induct)
  case (1 sz binary_op offset ping pong x m)
  show ?case
  proof (cases "0 < offset \<and> offset < sz")
    case False
    then have "small_scan_rounds sz binary_op offset ping pong x m = (ping, x, m)"
      by (subst small_scan_rounds.simps) auto
    moreover from False have "hs_rounds sz binary_op offset X = X"
      by (subst hs_rounds.simps) auto
    ultimately show ?thesis
      using "1.prems" by simp
  next
    case True
    let ?X = "hs_round binary_op offset X"
    let ?x = "map ?X [0..<sz]"
    let ?m = "\<lambda>a. if pong \<le> a \<and> a < pong + sz then ?X (a - pong) else m a"
    have sweep: "for_each_worker sz (small_scan_round binary_op offset ping pong x) m = (?x, ?m)"
      using small_scan_round_sweep [OF "1.prems", of sz binary_op offset] by simp
    have d: "disjoint_regions sz pong ping"
      using "1.prems"(1) by (auto simp: disjoint_regions_def)
    have xs: "\<forall>t<sz. ?x ! t = ?X t" by simp
    have ms: "\<forall>t<sz. ?m (pong + t) = ?X t" by simp
    from "1.IH" [OF True sweep [symmetric] d xs ms]
    obtain ping' x' m' where
      r: "small_scan_rounds sz binary_op (offset + offset) pong ping ?x ?m = (ping', x', m')"
      and p: "ping' = pong \<or> ping' = ping"
      and v: "\<forall>t<sz. m' (ping' + t) = hs_rounds sz binary_op (offset + offset) ?X t"
      and f: "\<forall>a. \<not> (pong \<le> a \<and> a < pong + sz) \<and> \<not> (ping \<le> a \<and> a < ping + sz) \<longrightarrow> m' a = ?m a"
      by blast
    have "small_scan_rounds sz binary_op offset ping pong x m = (ping', x', m')"
      using True sweep r by (subst small_scan_rounds.simps) simp
    moreover have "hs_rounds sz binary_op offset X = hs_rounds sz binary_op (offset + offset) ?X"
      using True by (subst hs_rounds.simps) simp
    ultimately show ?thesis using p v f by auto
  qed
qed

lemma small_scan_closed:
  assumes dis: "disjoint_regions sz first buffer" and sz: "0 < sz"
    and run: "small_inplace_exclusive_scan_with_buffer sz m first init buffer binary_op = (r, m')"
  defines "V \<equiv> \<lambda>t. if t = 0 then binary_op init (m first) else m (first + t)"
  defines "H \<equiv> hs_rounds sz binary_op 1 V"
  shows "r = H (sz - 1)"
    and "\<forall>t<sz. m' (first + t) = (if t = 0 then init else H (t - 1))"
    and "\<forall>a. \<not> (first \<le> a \<and> a < first + sz) \<and> \<not> (buffer \<le> a \<and> a < buffer + sz) \<longrightarrow> m' a = m a"
proof -
  let ?x = "map V [0..<sz]"
  let ?m1 = "m(first := binary_op init (m first))"
  have load: "for_each_worker sz (small_scan_load binary_op first init) m = (?x, ?m1)"
    using sz by (simp add: small_scan_load_sweep V_def)
  have xs: "\<forall>t<sz. ?x ! t = V t" by simp
  have ms: "\<forall>t<sz. ?m1 (first + t) = V t" by (simp add: V_def)
  from small_scan_rounds_closed [OF dis xs ms, of binary_op 1]
  obtain ping x2 m2 where
    r2: "small_scan_rounds sz binary_op 1 first buffer ?x ?m1 = (ping, x2, m2)"
    and v: "\<forall>t<sz. m2 (ping + t) = H t"
    and f: "\<forall>a. \<not> (first \<le> a \<and> a < first + sz) \<and> \<not> (buffer \<le> a \<and> a < buffer + sz) \<longrightarrow> m2 a = ?m1 a"
    unfolding H_def by blast
  let ?g = "\<lambda>t. if t = 0 then init else m2 (ping + (t - 1))"
  have eq: "small_inplace_exclusive_scan_with_buffer sz m first init buffer binary_op =
      (m2 (ping + (sz - 1)), \<lambda>a. if first \<le> a \<and> a < first + sz then map ?g [0..<sz] ! (a - first) else m2 a)"
    unfolding small_inplace_exclusive_scan_with_buffer_def load
    using r2 by (simp add: for_each_worker_read for_each_worker_write)
  from eq run have r: "r = m2 (ping + (sz - 1))"
    and m': "m' = (\<lambda>a. if first \<le> a \<and> a < first + sz then map ?g [0..<sz] ! (a - first) else m2 a)"
    by simp_all
  show "r = H (sz - 1)" using r v [rule_format, of "sz - 1"] sz by simp
  show "\<forall>t<sz. m' (first + t) = (if t = 0 then init else H (t - 1))"
  proof (intro allI impI)
    fix t assume t: "t < sz"
    have "m2 (ping + (t - 1)) = H (t - 1)"
      using v [rule_format, of "t - 1"] t by simp
    then show "m' (first + t) = (if t = 0 then init else H (t - 1))"
      using t by (cases "t = 0") (simp_all add: m')
  qed
  show "\<forall>a. \<not> (first \<le> a \<and> a < first + sz) \<and> \<not> (buffer \<le> a \<and> a < buffer + sz) \<longrightarrow> m' a = m a"
    using f sz by (auto simp: m')
qed


lemma foldl_assoc:
  "associative f \<Longrightarrow> f a (foldl f b xs) = foldl f (f a b) xs"
  by (induction xs arbitrary: b) (simp_all add: associative_def)

lemma seg_join:
  assumes "associative f" "a \<le> b" "b < c"
  shows "f (seg f V a b) (seg f V (Suc b) c) = seg f V a c"
proof -
  have "[Suc a..<Suc c] = [Suc a..<Suc b] @ [Suc b..<Suc c]"
    using upt_add_eq_append [of "Suc a" "Suc b" "c - b"] assms(2,3) by simp
  moreover have "[Suc b..<Suc c] = Suc b # [Suc (Suc b)..<Suc c]"
    using assms(3) by (simp add: upt_conv_Cons)
  ultimately have "[Suc a..<Suc c] = [Suc a..<Suc b] @ Suc b # [Suc (Suc b)..<Suc c]"
    by simp
  then show ?thesis
    by (simp add: seg_def foldl_assoc [OF assms(1)])
qed

lemma hs_rounds_assoc:
  assumes "associative f" "0 < offset" "\<forall>t<sz. X t = seg f V (Suc t - offset) t"
  shows "\<forall>t<sz. hs_rounds sz f offset X t = seg f V 0 t"
  using assms
proof (induction sz f offset X rule: hs_rounds.induct)
  case (1 sz f offset X)
  show ?case
  proof (cases "0 < offset \<and> offset < sz")
    case False
    then have "hs_rounds sz f offset X = X" by (subst hs_rounds.simps) auto
    moreover have "\<forall>t<sz. Suc t - offset = 0" using False "1.prems"(2) by auto
    ultimately show ?thesis using "1.prems"(3) by simp
  next
    case True
    have step: "\<forall>t<sz. hs_round f offset X t = seg f V (Suc t - (offset + offset)) t"
    proof (intro allI impI)
      fix t assume t: "t < sz"
      show "hs_round f offset X t = seg f V (Suc t - (offset + offset)) t"
      proof (cases "offset \<le> t")
        case False
        then show ?thesis using "1.prems"(3) t by (simp add: hs_round_def)
      next
        case le: True
        have a: "X (t - offset) = seg f V (Suc (t - offset) - offset) (t - offset)"
          using "1.prems"(3) t by simp
        have b: "X t = seg f V (Suc (t - offset)) t"
          using "1.prems"(3) t le by (simp add: Suc_diff_le)
        have "f (seg f V (Suc (t - offset) - offset) (t - offset)) (seg f V (Suc (t - offset)) t)
              = seg f V (Suc (t - offset) - offset) t"
          using True le by (intro seg_join "1.prems"(1)) auto
        moreover have "Suc (t - offset) - offset = Suc t - (offset + offset)"
          using le by simp
        ultimately show ?thesis using a b le by (simp add: hs_round_def)
      qed
    qed
    have "hs_rounds sz f offset X = hs_rounds sz f (offset + offset) (hs_round f offset X)"
      using True by (subst hs_rounds.simps) simp
    with "1.IH" [OF True "1.prems"(1) _ step] True show ?thesis by simp
  qed
qed

lemma hs_rounds_local:
  assumes "\<forall>u<k. X u = Y u"
  shows "\<forall>u<k. hs_rounds sz f offset X u = hs_rounds sz f offset Y u"
  using assms
proof (induction sz f offset X arbitrary: Y rule: hs_rounds.induct)
  case (1 sz f offset X)
  show ?case
  proof (cases "0 < offset \<and> offset < sz")
    case False
    then have "hs_rounds sz f offset X = X" "hs_rounds sz f offset Y = Y"
      by (subst hs_rounds.simps, auto)+
    then show ?thesis using "1.prems" by simp
  next
    case True
    have "\<forall>u<k. hs_round f offset X u = hs_round f offset Y u"
      using "1.prems" by (simp add: hs_round_def)
    from "1.IH" [OF True this]
    have "\<forall>u<k. hs_rounds sz f (offset + offset) (hs_round f offset X) u
               = hs_rounds sz f (offset + offset) (hs_round f offset Y) u" .
    moreover have "hs_rounds sz f offset X = hs_rounds sz f (offset + offset) (hs_round f offset X)"
      "hs_rounds sz f offset Y = hs_rounds sz f (offset + offset) (hs_round f offset Y)"
      using True by (subst hs_rounds.simps, simp)+
    ultimately show ?thesis by simp
  qed
qed

lemma hs_rounds_fold:
  assumes "associative f" "t < sz"
  shows "hs_rounds sz f 1 (\<lambda>t. if t = 0 then f init (v 0) else v t) t = foldl f init (map v [0..<Suc t])"
proof -
  let ?V = "\<lambda>t. if t = 0 then f init (v 0) else v t"
  have "\<forall>t<sz. ?V t = seg f ?V (Suc t - 1) t" by (simp add: seg_def)
  from hs_rounds_assoc [OF assms(1) _ this] assms(2)
  have "hs_rounds sz f 1 ?V t = seg f ?V 0 t" by simp
  also have "\<dots> = foldl f (f init (v 0)) (map v [Suc 0..<Suc t])"
  proof -
    have h: "map ?V [Suc 0..<Suc t] = map v [Suc 0..<Suc t]"
      by (rule map_cong [OF refl]) auto
    show ?thesis unfolding seg_def h by simp
  qed
  also have "\<dots> = foldl f init (map v [0..<Suc t])"
  proof -
    have "[0..<Suc t] = 0 # [Suc 0..<Suc t]" by (rule upt_conv_Cons) simp
    then show ?thesis by (simp only: list.map foldl_Cons)
  qed
  finally show ?thesis .
qed




section \<open>Phases of a tile\<close>

lemma int_less_nat: "int j < ps \<longleftrightarrow> j < nat ps"
  by arith

lemma copy_n_nat:
  "copy_n src first n dst result =
     (\<lambda>a. if result \<le> a \<and> a < result + nat n then src (first + (a - result)) else dst a)"
proof (rule ext)
  fix a
  have "result \<le> a \<and> int a < int result + n \<longleftrightarrow> result \<le> a \<and> a < result + nat n" by arith
  then show "copy_n src first n dst result a =
      (if result \<le> a \<and> a < result + nat n then src (first + (a - result)) else dst a)"
    by (simp add: copy_n_def)
qed

lemma to_size_type_le: "to_size_type (int n) \<le> int n"
proof -
  have "(int n + 2 ^ 31) mod 2 ^ 32 \<le> int n + 2 ^ 31"
    by (rule zmod_le_nonneg_dividend) simp
  then show ?thesis by (simp add: to_size_type_def)
qed

lemma to_size_type_less: "to_size_type z < 2 ^ 31"
proof -
  have "(z + 2 ^ 31) mod 2 ^ 32 < 2 ^ 32" by simp
  then show ?thesis by (simp add: to_size_type_def)
qed

lemma to_size_type_id: "- (2 ^ 31) \<le> z \<Longrightarrow> z < 2 ^ 31 \<Longrightarrow> to_size_type z = z"
proof -
  assume "- (2 ^ 31) \<le> z" "z < 2 ^ 31"
  then have "(z + 2 ^ 31) mod 2 ^ 32 = z + 2 ^ 31" by (intro mod_pos_pos_trivial) simp_all
  then show ?thesis by (simp add: to_size_type_def)
qed

lemma to_size_type_small: "n < 2 ^ 31 \<Longrightarrow> to_size_type (int n) = int n"
proof -
  assume "n < 2 ^ 31"
  then have "int n < 2 ^ 31" by (metis of_nat_less_iff of_nat_numeral of_nat_power)
  then show ?thesis by (intro to_size_type_id) simp_all
qed

lemma partition_size_le:
  "nat (partition_size_of W G first lst) \<le> W * G"
  "nat (partition_size_of W G first lst) \<le> lst - first"
proof -
  have "min (int (W * G)) (to_size_type (int (lst - first))) \<le> int (W * G)" by simp
  then show "nat (partition_size_of W G first lst) \<le> W * G"
    unfolding partition_size_of_def by linarith
  have "min (int (W * G)) (to_size_type (int (lst - first))) \<le> int (lst - first)"
    using to_size_type_le [of "lst - first"] by simp
  then show "nat (partition_size_of W G first lst) \<le> lst - first"
    unfolding partition_size_of_def by linarith
qed

lemma partition_size_less: "partition_size_of W G first lst < 2 ^ 31"
  using to_size_type_less [of "int (lst - first)"] by (simp add: partition_size_of_def)

lemma partition_size_small:
  "lst - first < 2 ^ 31 \<Longrightarrow> partition_size_of W G first lst = int (min (W * G) (lst - first))"
proof -
  assume "lst - first < 2 ^ 31"
  then have "partition_size_of W G first lst = min (int (W * G)) (int (lst - first))"
    unfolding partition_size_of_def by (simp only: to_size_type_small)
  also have "\<dots> = int (min (W * G) (lst - first))" by (simp only: of_nat_min)
  finally show ?thesis .
qed

text \<open>
  A worker with elements in its slice has a positive \<open>local_size\<close>; a worker without has
  none, when the difference is in the range of \<open>size_type\<close>.
\<close>

lemma local_size_of_active:
  assumes "0 < grainsize" "grainsize * tid < nat partition_size" "partition_size < 2 ^ 31"
  shows "local_size_of grainsize partition_size tid \<noteq> 0"
proof -
  define d where "d = partition_size - int (grainsize * tid)"
  have "(int (grainsize * tid) < partition_size) = (grainsize * tid < nat partition_size)"
    by (rule int_less_nat)
  with assms(2) have "int (grainsize * tid) < partition_size" by blast
  then have pos: "0 < d" by (simp add: d_def)
  have "d \<le> partition_size" by (simp add: d_def)
  with assms(3) have "d < 2 ^ 31" by simp
  with pos have "to_size_type d = d" by (intro to_size_type_id) simp_all
  with pos assms(1) have "max 0 (min (int grainsize) (to_size_type d)) \<noteq> 0" by simp
  then show ?thesis by (simp add: local_size_of_def d_def)
qed

lemma local_size_of_idle:
  assumes "\<not> grainsize * tid < nat partition_size"
    and "- (2 ^ 31) \<le> partition_size - int grainsize * int tid"
  shows "local_size_of grainsize partition_size tid = 0"
proof -
  define d where "d = partition_size - int (grainsize * tid)"
  have "(int (grainsize * tid) < partition_size) = (grainsize * tid < nat partition_size)"
    by (rule int_less_nat)
  with assms(1) have "\<not> int (grainsize * tid) < partition_size" by blast
  then have neg: "d \<le> 0" by (simp add: d_def)
  from assms(2) have "- (2 ^ 31) \<le> d" by (simp add: d_def)
  with neg have "to_size_type d = d" by (intro to_size_type_id) simp_all
  with neg have "max 0 (min (int grainsize) (to_size_type d)) = 0" by simp
  then show ?thesis by (simp add: local_size_of_def d_def)
qed

lemma local_size_of_no_grain: "local_size_of 0 partition_size tid = 0"
  by (simp add: local_size_of_def)

lemma accumulate_upto:
  "fold (accumulate_step cv f stage_inputs lo ps) [0..<k] (li0, x0) =
   (\<lambda>i. if i < k \<and> lo + i < nat ps then stage_inputs (lo + i) else li0 i,
    if 0 < k \<and> lo < nat ps
    then foldl (narrowed_op cv f) (stage_inputs lo)
           (map (\<lambda>i. stage_inputs (lo + i)) [1..<min k (nat ps - lo)])
    else x0)"
  (is "?run k = ?closed k")
proof (induction k)
  case 0
  show ?case by simp
next
  case (Suc k)
  have "?run (Suc k) = accumulate_step cv f stage_inputs lo ps k (?run k)" by simp
  also have "\<dots> = accumulate_step cv f stage_inputs lo ps k (?closed k)" by (simp only: Suc)
  also have "\<dots> = ?closed (Suc k)"
  proof (cases "lo + k < nat ps")
    case True
    then have m: "min k (nat ps - lo) = k" "min (Suc k) (nat ps - lo) = Suc k" by auto
    show ?thesis
      using True
      by (cases "k = 0")
         (auto simp: m accumulate_step_def Let_def fun_eq_iff int_less_nat narrowed_op_def)
  next
    case False
    then have m: "min (Suc k) (nat ps - lo) = min k (nat ps - lo)" by auto
    show ?thesis
      using False by (auto simp: m accumulate_step_def Let_def fun_eq_iff int_less_nat)
  qed
  finally show ?case .
qed

lemma accumulate_closed:
  "accumulate cv f G stage_inputs lo ps u =
   (\<lambda>i. if i < G \<and> lo + i < nat ps then stage_inputs (lo + i) else fst u i,
    if 0 < G \<and> lo < nat ps
    then foldl (narrowed_op cv f) (stage_inputs lo)
           (map (\<lambda>i. stage_inputs (lo + i)) [1..<min G (nat ps - lo)])
    else snd u)"
  unfolding accumulate_def using accumulate_upto [of cv f stage_inputs lo ps G "fst u" "snd u"]
  by simp

lemma local_scan_upto:
  "fold (local_scan_step inclusive cv f li lo ps) [0..<k] (x, res) =
   (foldl (narrowed_op cv f) x (map li [0..<min k (nat ps - lo)]),
    \<lambda>j. if lo \<le> j \<and> j < lo + k \<and> j < nat ps
        then to_intermediate cv
               (foldl (narrowed_op cv f) x (map li [0..<(j - lo) + (if inclusive then 1 else 0)]))
        else res j)"
  (is "?run k = ?closed k")
proof (induction k)
  case 0
  show ?case by (auto simp: fun_eq_iff)
next
  case (Suc k)
  have "?run (Suc k) = local_scan_step inclusive cv f li lo ps k (?run k)" by simp
  also have "\<dots> = local_scan_step inclusive cv f li lo ps k (?closed k)" by (simp only: Suc)
  also have "\<dots> = ?closed (Suc k)"
  proof (cases "lo + k < nat ps")
    case True
    then have m: "min k (nat ps - lo) = k" "min (Suc k) (nat ps - lo) = Suc k" by auto
    show ?thesis
      using True
      by (auto simp: m local_scan_step_def Let_def fun_eq_iff int_less_nat narrowed_op_def)
  next
    case False
    then have m: "min (Suc k) (nat ps - lo) = min k (nat ps - lo)" by auto
    show ?thesis
      using False by (auto simp: m local_scan_step_def Let_def fun_eq_iff int_less_nat)
  qed
  finally show ?case .
qed

lemma local_scan_closed:
  "snd (local_scan inclusive cv f G li lo ps (x, res)) =
    (\<lambda>j. if lo \<le> j \<and> j < lo + G \<and> j < nat ps
        then to_intermediate cv
               (foldl (narrowed_op cv f) x (map li [0..<(j - lo) + (if inclusive then 1 else 0)]))
        else res j)"
  unfolding local_scan_def local_scan_upto by simp

lemma local_sum_sweep:
  "for_each_worker n (local_sum_phase cv f G stage_inputs ps uninit) s0 =
     (map (\<lambda>t. case accumulate cv f G stage_inputs (G * t) ps (uninit t) of
                 (li, x) \<Rightarrow> (li, x, local_size_of G ps t)) [0..<n],
      \<lambda>t. if t < n \<and> local_size_of G ps t \<noteq> 0
          then to_intermediate cv (snd (accumulate cv f G stage_inputs (G * t) ps (uninit t)))
          else s0 t)"
proof (induction n)
  case 0
  show ?case by simp
next
  case (Suc n)
  let ?ls = "map (\<lambda>t. case accumulate cv f G stage_inputs (G * t) ps (uninit t) of
                 (li, x) \<Rightarrow> (li, x, local_size_of G ps t)) [0..<n]"
  let ?s = "\<lambda>n t. if t < n \<and> local_size_of G ps t \<noteq> 0
                then to_intermediate cv (snd (accumulate cv f G stage_inputs (G * t) ps (uninit t)))
                else s0 t"
  have "for_each_worker (Suc n) (local_sum_phase cv f G stage_inputs ps uninit) s0 =
     (case local_sum_phase cv f G stage_inputs ps uninit n (?s n) of (l, m'') \<Rightarrow> (?ls @ [l], m''))"
    by (simp add: Suc)
  moreover have "fst (local_sum_phase cv f G stage_inputs ps uninit n (?s n)) =
      (case accumulate cv f G stage_inputs (G * n) ps (uninit n) of
         (li, x) \<Rightarrow> (li, x, local_size_of G ps n))"
    by (simp add: local_sum_phase_def Let_def split: prod.splits)
  moreover have "snd (local_sum_phase cv f G stage_inputs ps uninit n (?s n)) = ?s (Suc n)"
    by (auto simp: local_sum_phase_def Let_def fun_eq_iff less_Suc_eq split: prod.splits)
  ultimately show ?case by (simp add: split_beta)
qed

lemma slice_index:
  assumes "G * n \<le> j" "j < G * n + (G::nat)"
  shows "j div G = n" "j mod G = j - G * n"
proof -
  from assms have G: "0 < G" by (cases G) auto
  show d: "j div G = n"
    using assms by (intro div_nat_eqI) (simp_all add: mult.commute)
  have "j = G * (j div G) + j mod G" by simp
  with d show "j mod G = j - G * n" by (metis add_diff_cancel_left')
qed

lemma local_scan_sweep:
  assumes "\<forall>t<n. locals ! t = (LI t, LX t, local_size_of G ps t)" and ps: "ps < 2 ^ 31"
  shows "for_each_worker n (local_scan_phase inclusive cv f G s2 ps locals) res0 =
     (replicate n (),
      \<lambda>j. if j < G * n \<and> j < nat ps
          then to_intermediate cv
                 (foldl (narrowed_op cv f) (to_input cv (s2 (j div G)))
                    (map (LI (j div G)) [0..<j mod G + (if inclusive then 1 else 0)]))
          else res0 j)"
  using assms
proof (induction n)
  case 0
  show ?case by simp
next
  case (Suc n)
  let ?out = "\<lambda>j. to_intermediate cv
                 (foldl (narrowed_op cv f) (to_input cv (s2 (j div G)))
                    (map (LI (j div G)) [0..<j mod G + (if inclusive then 1 else 0)]))"
  let ?res = "\<lambda>n j. if j < G * n \<and> j < nat ps then ?out j else res0 j"
  from Suc have IH: "for_each_worker n (local_scan_phase inclusive cv f G s2 ps locals) res0 =
     (replicate n (), ?res n)" by simp
  from Suc.prems(1) have loc: "locals ! n = (LI n, LX n, local_size_of G ps n)" by simp
  have "snd (local_scan_phase inclusive cv f G s2 ps locals n (?res n)) = ?res (Suc n)"
  proof (rule ext)
    fix j
    show "snd (local_scan_phase inclusive cv f G s2 ps locals n (?res n)) j = ?res (Suc n) j"
    proof (cases "G * n \<le> j \<and> j < G * n + G \<and> j < nat ps")
      case True
      then have "j div G = n" "j mod G = j - G * n" "0 < G" "G * n < nat ps"
        using slice_index [of G n j] by auto
      moreover from this(3,4) ps have "local_size_of G ps n \<noteq> 0" by (rule local_size_of_active)
      ultimately show ?thesis
        using True
        by (simp add: local_scan_phase_def loc Let_def local_scan_closed)
    next
      case False
      then have "j < G * Suc n \<and> j < nat ps \<longleftrightarrow> j < G * n \<and> j < nat ps" by auto
      then show ?thesis
        using False
        by (auto simp: local_scan_phase_def loc Let_def local_scan_closed)
    qed
  qed
  then show ?case
    by (simp add: IH split_beta replicate_append_same)
qed

lemma scan_tile_closed:
  assumes W: "0 < W"
    and run: "scan_tile inclusive cv W G src first lst dest result carry f buffer uninit =
                (c', b', d')"
  defines "psi \<equiv> partition_size_of W G first lst"
  defines "e \<equiv> \<lambda>j. src (first + j)"
  defines "s1 \<equiv> tile_sums cv f W G e psi (\<lambda>t. snd (uninit first t)) (sums buffer)"
  shows "c' = tile_scanned f W carry s1 (W - 1)"
    and "\<forall>j<nat psi. d' (result + j) =
           tile_out inclusive cv f G e (tile_prefix f W carry s1) j"
    and "\<forall>a. \<not> (result \<le> a \<and> a < result + nat psi) \<longrightarrow> d' a = dest a"
    and "\<forall>t<W. sums b' t = tile_prefix f W carry s1 t"
proof -
  define ps where "ps = nat psi"
  have psi: "psi < 2 ^ 31" unfolding psi_def by (rule partition_size_less)
  define stage_inputs where "stage_inputs = copy_n src first psi (inputs buffer) 0"
  define A where "A = (\<lambda>t. accumulate cv f G stage_inputs (G * t) psi (uninit first t))"
  define locals where
    "locals = map (\<lambda>t. case A t of (li, x) \<Rightarrow> (li, x, local_size_of G psi t)) [0..<W]"
  have stage_inputs: "stage_inputs j = e j" if "j < ps" for j
    using that by (simp add: stage_inputs_def copy_n_nat e_def ps_def)
  have A_fst: "fst (A t) i = e (G * t + i)" if "i < G" "G * t + i < ps" for t i
    using that stage_inputs by (simp add: A_def accumulate_closed ps_def)
  have A_snd: "snd (A t) = slice_sum cv f G e ps t" if "0 < G" "G * t < ps" for t
  proof -
    have m: "map (\<lambda>i. stage_inputs (G * t + i)) [1..<min G (ps - G * t)] =
          map (\<lambda>i. e (G * t + i)) [1..<min G (ps - G * t)]"
      by (rule map_cong [OF refl]) (auto intro: stage_inputs)
    have "snd (A t) = foldl (narrowed_op cv f) (stage_inputs (G * t))
        (map (\<lambda>i. stage_inputs (G * t + i)) [1..<min G (ps - G * t)])"
      using that by (simp add: A_def accumulate_closed ps_def)
    then show ?thesis
      unfolding m slice_sum_def using that stage_inputs by simp
  qed
  have A_idle: "snd (A t) = snd (uninit first t)" if "\<not> G * t < ps" for t
    using that by (simp add: A_def accumulate_closed ps_def)
  have A_sum: "to_intermediate cv (snd (A t)) =
      to_intermediate cv
        (if G * t < nat psi then slice_sum cv f G e (nat psi) t else snd (uninit first t))"
    if "local_size_of G psi t \<noteq> 0" for t
  proof (cases "G * t < ps")
    case True
    from that have "0 < G" using local_size_of_no_grain [of psi t] by (cases G) auto
    with True show ?thesis using A_snd [of t] by (simp add: ps_def)
  next
    case False
    then show ?thesis using A_idle [of t] by (simp add: ps_def)
  qed
  have sweep1: "for_each_worker W (local_sum_phase cv f G stage_inputs psi (uninit first))
      (sums buffer) = (locals, s1)"
  proof -
    have "(\<lambda>t. if t < W \<and> local_size_of G psi t \<noteq> 0 then to_intermediate cv (snd (A t))
               else sums buffer t) = s1"
      unfolding s1_def tile_sums_def using A_sum by (auto simp: fun_eq_iff)
    then show ?thesis
      unfolding local_sum_sweep A_def by (simp add: locals_def A_def)
  qed
  obtain c2 sums2 where
    small: "small_inplace_exclusive_scan_with_buffer W s1 0 carry W f = (c2, sums2)"
    by (cases "small_inplace_exclusive_scan_with_buffer W s1 0 carry W f")
  have dis: "disjoint_regions W 0 W" by (simp add: disjoint_regions_def)
  have V: "(\<lambda>t. if t = 0 then f carry (s1 0) else s1 (0 + t)) =
           (\<lambda>u. if u = 0 then f carry (s1 0) else s1 u)"
    by (auto simp: fun_eq_iff)
  have c2: "c2 = tile_scanned f W carry s1 (W - 1)"
    using small_scan_closed(1) [OF dis W small] by (simp add: tile_scanned_def V)
  have sums2: "sums2 t = tile_prefix f W carry s1 t" if "t < W" for t
    using small_scan_closed(2) [OF dis W small] that
    by (simp add: tile_scanned_def tile_prefix_def V)
  define stage_results where "stage_results = (\<lambda>j. if j < G * W \<and> j < ps
          then to_intermediate cv
                 (foldl (narrowed_op cv f) (to_input cv (sums2 (j div G)))
                    (map (fst (A (j div G))) [0..<j mod G + (if inclusive then 1 else 0)]))
          else results buffer j)"
  have "\<forall>t<W. locals ! t = (fst (A t), snd (A t), local_size_of G psi t)"
    by (simp add: locals_def split_beta)
  then have sweep2: "for_each_worker W (local_scan_phase inclusive cv f G sums2 psi locals)
      (results buffer) = (replicate W (), stage_results)"
    unfolding stage_results_def ps_def using psi by (rule local_scan_sweep)
  have "scan_tile inclusive cv W G src first lst dest result carry f buffer uninit =
      (c2, \<lparr>sums = sums2, inputs = stage_inputs, results = stage_results\<rparr>,
       copy_n stage_results 0 psi dest result)"
    unfolding scan_tile_def Let_def psi_def [symmetric] stage_inputs_def [symmetric] sweep1
    by (simp add: small sweep2)
  with run have c': "c' = c2" and d': "d' = copy_n stage_results 0 psi dest result"
    and b': "b' = \<lparr>sums = sums2, inputs = stage_inputs, results = stage_results\<rparr>"
    by simp_all
  show "c' = tile_scanned f W carry s1 (W - 1)" using c' c2 by simp
  show "\<forall>t<W. sums b' t = tile_prefix f W carry s1 t" using sums2 by (simp add: b')
  show "\<forall>a. \<not> (result \<le> a \<and> a < result + nat psi) \<longrightarrow> d' a = dest a"
    by (simp add: d' copy_n_nat)
  have psWG: "ps \<le> W * G" unfolding ps_def psi_def by (rule partition_size_le)
  show "\<forall>j<nat psi. d' (result + j) =
          tile_out inclusive cv f G e (tile_prefix f W carry s1) j"
  proof (intro allI impI)
    fix j assume "j < nat psi"
    then have j: "j < ps" by (simp add: ps_def)
    then have jWG: "j < W * G" using psWG by simp
    then have G: "0 < G" by (cases G) auto
    from jWG G have t: "j div G < W" by (simp add: less_mult_imp_div_less)
    have m: "map (fst (A (j div G))) [0..<j mod G + (if inclusive then 1 else 0)] =
          map (\<lambda>i. e (G * (j div G) + i)) [0..<j mod G + (if inclusive then 1 else 0)]"
    proof (rule map_cong [OF refl])
      fix i assume "i \<in> set [0..<j mod G + (if inclusive then 1 else 0)]"
      then have i: "i \<le> j mod G" by (auto split: if_splits)
      with G have "i < G" by (meson le_less_trans mod_less_divisor)
      moreover have "G * (j div G) + i \<le> j" using i by (metis add_le_cancel_left mult_div_mod_eq)
      ultimately show "fst (A (j div G)) i = e (G * (j div G) + i)"
        using j by (intro A_fst) auto
    qed
    have "d' (result + j) = to_intermediate cv
        (foldl (narrowed_op cv f) (to_input cv (tile_prefix f W carry s1 (j div G)))
          (map (fst (A (j div G))) [0..<j mod G + (if inclusive then 1 else 0)]))"
      using j jWG t by (simp add: d' copy_n_nat stage_results_def sums2 mult.commute ps_def)
    then show "d' (result + j) = tile_out inclusive cv f G e (tile_prefix f W carry s1) j"
      unfolding m tile_out_def .
  qed
qed

text \<open>The sum that a worker with elements in its slice stores.\<close>

lemma tile_sums_active:
  assumes "t < W" "0 < G" "G * t < nat ps" "ps < 2 ^ 31"
  shows "tile_sums cv f W G e ps ux s0 t = to_intermediate cv (slice_sum cv f G e (nat ps) t)"
  using assms local_size_of_active [OF assms(2-4)] by (simp add: tile_sums_def)


section \<open>A tile under an associative operation and lossless conversions\<close>

lemma tile_scanned_fold:
  assumes "associative f" "t < W"
  shows "tile_scanned f W carry s t = foldl f carry (map s [0..<Suc t])"
  unfolding tile_scanned_def by (rule hs_rounds_fold [OF assms])

lemma tile_prefix_fold:
  assumes "associative f" "t < W"
  shows "tile_prefix f W carry s t = foldl f carry (map s [0..<t])"
proof (cases t)
  case 0
  then show ?thesis by (simp add: tile_prefix_def)
next
  case (Suc u)
  with assms(2) have "u < W" by simp
  from tile_scanned_fold [OF assms(1) this] Suc show ?thesis
    by (simp add: tile_prefix_def)
qed

lemma map_shift: "map (\<lambda>i. e (a + i)) [0..<n] = map e [a..<a + n]"
proof -
  have "[a..<a + n] = map (\<lambda>i. i + a) [0..<n]"
    by (simp add: map_add_upt add.commute)
  then show ?thesis by (simp add: comp_def add.commute)
qed

lemma map_shift_from: "map (\<lambda>i. e (a + i)) [k..<n] = map e [a + k..<a + n]"
proof -
  have "[a + k..<a + n] = map (\<lambda>i. i + a) [k..<n]"
    by (induction n) (auto simp: add.commute)
  then show ?thesis by (simp add: comp_def add.commute)
qed

lemma foldl_upt_split:
  assumes "a \<le> b" "b \<le> c"
  shows "foldl f (foldl f x (map e [a..<b])) (map e [b..<c]) = foldl f x (map e [a..<c])"
proof -
  have "[a..<c] = [a..<b] @ [b..<c]"
    using upt_add_eq_append [of a b "c - b"] assms by simp
  then show ?thesis by simp
qed

lemma narrowed_fold:
  assumes "lossless cv"
  shows "to_intermediate cv (foldl (narrowed_op cv f) x ys) =
         foldl f (to_intermediate cv x) (map (to_intermediate cv) ys)"
proof (induction ys arbitrary: x)
  case Nil
  show ?case by simp
next
  case (Cons y ys)
  have "to_intermediate cv (narrowed_op cv f x y) = f (to_intermediate cv x) (to_intermediate cv y)"
    using assms by (simp add: narrowed_op_def lossless_def)
  then show ?case by (simp add: Cons)
qed

lemma slice_sum_lossless:
  assumes "lossless cv"
  shows "to_intermediate cv (slice_sum cv f G e ps t) =
         slice_fold f G (\<lambda>j. to_intermediate cv (e j)) ps t"
  unfolding slice_sum_def slice_fold_def narrowed_fold [OF assms] by (simp add: comp_def)

lemma tile_out_lossless:
  assumes "lossless cv"
  shows "tile_out inclusive cv f G e P j =
         foldl f (P (j div G))
           (map (\<lambda>i. to_intermediate cv (e (G * (j div G) + i)))
              [0..<j mod G + (if inclusive then 1 else 0)])"
  unfolding tile_out_def narrowed_fold [OF assms]
  using assms by (simp add: lossless_def comp_def)

lemma slice_fold_full:
  assumes "0 < G" "G * t + G \<le> ps"
  shows "slice_fold f G e ps t = foldl f (e (G * t)) (map e [Suc (G * t)..<G * t + G])"
proof -
  from assms have "min G (ps - G * t) = G" by simp
  then show ?thesis
    using map_shift_from [of e "G * t" 1 G] by (simp add: slice_fold_def)
qed

lemma fold_slices:
  assumes "associative f" "0 < G" "\<forall>u<t. s u = slice_fold f G e ps u" "G * t \<le> ps"
  shows "foldl f c (map s [0..<t]) = foldl f c (map e [0..<G * t])"
  using assms(3,4)
proof (induction t)
  case 0
  show ?case by simp
next
  case (Suc t)
  from Suc.prems have full: "G * t + G \<le> ps" by simp
  have IH: "foldl f c (map s [0..<t]) = foldl f c (map e [0..<G * t])"
    using Suc by simp
  have "s t = foldl f (e (G * t)) (map e [Suc (G * t)..<G * t + G])"
    using Suc.prems(1) slice_fold_full [OF assms(2) full] by simp
  then have "foldl f c (map s [0..<Suc t]) =
      f (foldl f c (map e [0..<G * t])) (foldl f (e (G * t)) (map e [Suc (G * t)..<G * t + G]))"
    using IH by simp
  also have "\<dots> = foldl f (foldl f c (map e [0..<G * t])) (map e (G * t # [Suc (G * t)..<G * t + G]))"
    by (simp add: foldl_assoc [OF assms(1)])
  also have "G * t # [Suc (G * t)..<G * t + G] = [G * t..<G * t + G]"
    using assms(2) by (simp add: upt_conv_Cons)
  also have "foldl f (foldl f c (map e [0..<G * t])) (map e [G * t..<G * t + G]) =
      foldl f c (map e [0..<G * t + G])"
    by (rule foldl_upt_split) simp_all
  finally show ?case by (simp add: add.commute)
qed

lemma scan_tile_correct:
  assumes assoc: "associative f" and ll: "lossless cv" and W: "0 < W" and G: "0 < G"
    and small: "lst - first < 2 ^ 31"
    and run: "scan_tile inclusive cv W G src first lst dest result carry f buffer uninit =
                (c', b', d')"
  defines "E \<equiv> \<lambda>a. to_intermediate cv (src a)"
  shows "\<forall>j. j < W * G \<and> j < lst - first \<longrightarrow> d' (result + j) =
            foldl f carry (map E [first..<first + j + (if inclusive then 1 else 0)])"
    and "\<forall>a. \<not> (result \<le> a \<and> a < result + min (W * G) (lst - first)) \<longrightarrow> d' a = dest a"
    and "W * G \<le> lst - first \<longrightarrow> c' = foldl f carry (map E [first..<first + W * G])"
proof -
  define ps where "ps = min (W * G) (lst - first)"
  have psi: "partition_size_of W G first lst = int ps"
    unfolding ps_def using small by (rule partition_size_small)
  have ps_less: "int ps < 2 ^ 31" using partition_size_less [of W G first lst] by (simp only: psi)
  define e where "e = (\<lambda>j. src (first + j))"
  define e' where "e' = (\<lambda>j. E (first + j))"
  define s1 where "s1 = tile_sums cv f W G e (int ps) (\<lambda>t. snd (uninit first t)) (sums buffer)"
  note closed0 = scan_tile_closed [OF W run]
  have closed: "c' = tile_scanned f W carry s1 (W - 1)"
    "\<forall>j<ps. d' (result + j) = tile_out inclusive cv f G e (tile_prefix f W carry s1) j"
    using closed0(1,2) by (simp_all add: s1_def e_def psi)
  show "\<forall>a. \<not> (result \<le> a \<and> a < result + min (W * G) (lst - first)) \<longrightarrow> d' a = dest a"
    using closed0(3) by (simp add: psi ps_def)
  have slices: "foldl f carry (map s1 [0..<t]) = foldl f carry (map e' [0..<G * t])"
    if "t \<le> W" "G * t \<le> ps" for t
  proof (rule fold_slices [OF assoc G _ that(2)], intro allI impI)
    fix u assume "u < t"
    then have "u < W" "G * u < ps"
      using that G by (auto intro: less_le_trans [of "G * u" "G * t" ps])
    then have "s1 u = to_intermediate cv (slice_sum cv f G e ps u)"
      using G ps_less tile_sums_active [of u W G "int ps" cv f e] by (simp add: s1_def)
    then show "s1 u = slice_fold f G e' ps u"
      by (simp add: slice_sum_lossless [OF ll] e'_def E_def e_def)
  qed
  show "W * G \<le> lst - first \<longrightarrow> c' = foldl f carry (map E [first..<first + W * G])"
  proof
    assume "W * G \<le> lst - first"
    then have ps: "ps = W * G" by (simp add: ps_def)
    have "c' = foldl f carry (map s1 [0..<Suc (W - 1)])"
      using closed(1) tile_scanned_fold [OF assoc, of "W - 1" W carry s1] W by simp
    also have "\<dots> = foldl f carry (map e' [0..<G * W])"
      using slices [of W] W ps by (simp add: mult.commute)
    also have "map e' [0..<G * W] = map E [first..<first + W * G]"
      using map_shift [of E first "G * W"] by (simp add: e'_def mult.commute)
    finally show "c' = foldl f carry (map E [first..<first + W * G])" .
  qed
  show "\<forall>j. j < W * G \<and> j < lst - first \<longrightarrow> d' (result + j) =
            foldl f carry (map E [first..<first + j + (if inclusive then 1 else 0)])"
  proof (intro allI impI)
    fix j assume "j < W * G \<and> j < lst - first"
    then have j: "j < ps" and jWG: "j < W * G" by (simp_all add: ps_def)
    define t where "t = j div G"
    define d where "d = (if inclusive then 1 else 0::nat)"
    have t: "t < W" using jWG G by (simp add: t_def less_mult_imp_div_less)
    have jt: "j = G * t + j mod G" by (simp add: t_def)
    then have Gt: "G * t \<le> ps" using j by linarith
    have "d' (result + j) = foldl f (tile_prefix f W carry s1 t) (map (\<lambda>i. e' (G * t + i)) [0..<j mod G + d])"
      using closed(2) j
      by (simp add: tile_out_lossless [OF ll] t_def d_def e'_def E_def e_def add.assoc)
    also have "tile_prefix f W carry s1 t = foldl f carry (map e' [0..<G * t])"
      using tile_prefix_fold [OF assoc t] slices [of t] t Gt by simp
    also have "map (\<lambda>i. e' (G * t + i)) [0..<j mod G + d] = map e' [G * t..<G * t + (j mod G + d)]"
      by (rule map_shift)
    also have "foldl f (foldl f carry (map e' [0..<G * t])) (map e' [G * t..<G * t + (j mod G + d)]) =
        foldl f carry (map e' [0..<G * t + (j mod G + d)])"
      by (rule foldl_upt_split) simp_all
    also have "G * t + (j mod G + d) = j + d" using jt by simp
    also have "map e' [0..<j + d] = map E [first..<first + (j + d)]"
      using map_shift [of E first "j + d"] by (simp add: e'_def)
    finally show "d' (result + j) =
        foldl f carry (map E [first..<first + j + (if inclusive then 1 else 0)])"
      by (simp add: d_def add.assoc)
  qed
qed


section \<open>Independence of the scratch contents, and the tile loop\<close>

lemma tile_prefix_local:
  assumes "\<forall>u<t. s u = s' u"
  shows "tile_prefix f W carry s t = tile_prefix f W carry s' t"
proof (cases t)
  case 0
  then show ?thesis by (simp add: tile_prefix_def)
next
  case (Suc k)
  have "\<forall>u<Suc k. (if u = 0 then f carry (s 0) else s u) = (if u = 0 then f carry (s' 0) else s' u)"
    using assms Suc by simp
  from hs_rounds_local [OF this, of W f 1] Suc show ?thesis
    by (simp add: tile_prefix_def tile_scanned_def)
qed

lemma scan_tile_indep:
  assumes W: "0 < W" and G: "0 < G"
    and run1: "scan_tile inclusive cv W G src first lst dest result carry f buffer1 uninit1 =
                 (c1, b1, d1)"
    and run2: "scan_tile inclusive cv W G src first lst dest result carry f buffer2 uninit2 =
                 (c2, b2, d2)"
  shows "d1 = d2" and "nat (partition_size_of W G first lst) = W * G \<longrightarrow> c1 = c2"
proof -
  define psi where "psi = partition_size_of W G first lst"
  define ps where "ps = nat psi"
  define e where "e = (\<lambda>j. src (first + j))"
  define s1 where "s1 = tile_sums cv f W G e psi (\<lambda>t. snd (uninit1 first t)) (sums buffer1)"
  define s2 where "s2 = tile_sums cv f W G e psi (\<lambda>t. snd (uninit2 first t)) (sums buffer2)"
  note cl1 = scan_tile_closed [OF W run1] and cl2 = scan_tile_closed [OF W run2]
  have psWG: "ps \<le> W * G" unfolding ps_def psi_def by (rule partition_size_le)
  have psi: "psi < 2 ^ 31" unfolding psi_def by (rule partition_size_less)
  have agree: "s1 u = s2 u" if "u < W" "G * u < ps" for u
    using that G psi by (simp add: s1_def s2_def tile_sums_active ps_def)
  show "d1 = d2"
  proof (rule ext)
    fix a
    show "d1 a = d2 a"
    proof (cases "result \<le> a \<and> a < result + ps")
      case False
      then show ?thesis using cl1(3) cl2(3) by (simp add: ps_def psi_def)
    next
      case True
      define j where "j = a - result"
      from True have j: "j < ps" and a: "a = result + j" by (auto simp: j_def)
      then have jWG: "j < W * G" using psWG by simp
      have t: "j div G < W" using jWG G by (simp add: less_mult_imp_div_less)
      have "\<forall>u<j div G. s1 u = s2 u"
      proof (intro allI impI)
        fix u assume u: "u < j div G"
        then have "G * u < G * (j div G)" using G by simp
        also have "\<dots> \<le> j" by simp
        finally have "G * u < ps" using j by simp
        with u t show "s1 u = s2 u" by (intro agree) auto
      qed
      then have "tile_prefix f W carry s1 (j div G) = tile_prefix f W carry s2 (j div G)"
        by (rule tile_prefix_local)
      then have "tile_out inclusive cv f G e (tile_prefix f W carry s1) j =
                 tile_out inclusive cv f G e (tile_prefix f W carry s2) j"
        by (simp add: tile_out_def)
      then show ?thesis
        using cl1(2) cl2(2) j unfolding a by (simp add: ps_def psi_def e_def s1_def s2_def)
    qed
  qed
  show "nat (partition_size_of W G first lst) = W * G \<longrightarrow> c1 = c2"
  proof
    assume "nat (partition_size_of W G first lst) = W * G"
    then have ps: "ps = W * G" by (simp add: ps_def psi_def)
    have "\<forall>u<W. s1 u = s2 u" using agree G ps by (simp add: mult.commute)
    then have "\<forall>u<W. (if u = 0 then f carry (s1 0) else s1 u) = (if u = 0 then f carry (s2 0) else s2 u)"
      using W by simp
    from hs_rounds_local [OF this, of W f 1] W
    have "tile_scanned f W carry s1 (W - 1) = tile_scanned f W carry s2 (W - 1)"
      by (simp add: tile_scanned_def)
    then show "c1 = c2"
      using cl1(1) cl2(1) by (simp add: psi_def e_def s1_def s2_def)
  qed
qed

text \<open>
  What the two members of the union hold on entry to a tile, and what the private
  \<open>local_inputs\<close> hold, reaches neither the carry nor the destination.
\<close>

lemma scan_tile_stage_indep:
  assumes "sums buffer1 = sums buffer2"
    and "\<forall>t. snd (uninit1 first t) = snd (uninit2 first t)"
  shows "fst (scan_tile inclusive cv W G src first lst dest result carry f buffer1 uninit1) =
         fst (scan_tile inclusive cv W G src first lst dest result carry f buffer2 uninit2)"
    and "snd (snd (scan_tile inclusive cv W G src first lst dest result carry f buffer1 uninit1)) =
         snd (snd (scan_tile inclusive cv W G src first lst dest result carry f buffer2 uninit2))"
proof -
  obtain c1 b1 d1 where run1:
    "scan_tile inclusive cv W G src first lst dest result carry f buffer1 uninit1 = (c1, b1, d1)"
    by (cases "scan_tile inclusive cv W G src first lst dest result carry f buffer1 uninit1")
  obtain c2 b2 d2 where run2:
    "scan_tile inclusive cv W G src first lst dest result carry f buffer2 uninit2 = (c2, b2, d2)"
    by (cases "scan_tile inclusive cv W G src first lst dest result carry f buffer2 uninit2")
  have "c1 = c2 \<and> d1 = d2"
  proof (cases "0 < W")
    case True
    note cl1 = scan_tile_closed [OF True run1] and cl2 = scan_tile_closed [OF True run2]
    have "c1 = c2" using cl1(1) cl2(1) assms by simp
    moreover have "d1 = d2"
    proof (rule ext)
      fix a
      show "d1 a = d2 a"
      proof (cases "result \<le> a \<and> a < result + nat (partition_size_of W G first lst)")
        case False
        then show ?thesis using cl1(3) cl2(3) by simp
      next
        case True
        define j where "j = a - result"
        from True have j: "j < nat (partition_size_of W G first lst)" and a: "a = result + j"
          by (auto simp: j_def)
        show ?thesis using cl1(2) cl2(2) j assms unfolding a by simp
      qed
    qed
    ultimately show ?thesis by simp
  next
    case False
    then have W: "W = 0" by simp
    have "partition_size_of 0 G first lst \<le> 0" by (simp add: partition_size_of_def)
    then have n: "nat (partition_size_of 0 G first lst) = 0" by simp
    have cn: "copy_n r 0 (partition_size_of 0 G first lst) dest result = dest" for r
      by (auto simp: copy_n_nat n fun_eq_iff)
    from run1 run2 assms(1) show ?thesis
      unfolding W by (auto simp: scan_tile_def Let_def cn split: prod.splits)
  qed
  then show
    "fst (scan_tile inclusive cv W G src first lst dest result carry f buffer1 uninit1) =
     fst (scan_tile inclusive cv W G src first lst dest result carry f buffer2 uninit2)"
    "snd (snd (scan_tile inclusive cv W G src first lst dest result carry f buffer1 uninit1)) =
     snd (snd (scan_tile inclusive cv W G src first lst dest result carry f buffer2 uninit2))"
    by (simp_all add: run1 run2)
qed

lemma scan_with_buffer_done:
  "\<not> first < lst \<Longrightarrow>
   scan_with_buffer inclusive cv W G src first lst dest result carry f buffer uninit = Some dest"
  by (subst scan_with_buffer.simps) simp

lemma scan_with_buffer_step:
  "first < lst \<Longrightarrow>
   scan_tile inclusive cv W G src first lst dest result carry f buffer uninit = (c', b', d') \<Longrightarrow>
   scan_with_buffer inclusive cv W G src first lst dest result carry f buffer uninit =
   scan_with_buffer inclusive cv W G src (first + W * G) lst d' (result + W * G) c' f b' uninit"
  by (subst scan_with_buffer.simps) simp

text \<open>
  The loop returns when \<open>groupsize * grainsize\<close> is positive, and writes only into the
  destination range; what the first tile has written below \<open>result + groupsize * grainsize\<close>
  stays.
\<close>

lemma scan_with_buffer_frame:
  assumes W: "0 < W" and G: "0 < G"
  shows "\<exists>d. scan_with_buffer inclusive cv W G src first lst dest result carry f buffer uninit =
               Some d
           \<and> (\<forall>a. \<not> (result \<le> a \<and> a < result + (lst - first)) \<longrightarrow> d a = dest a)"
proof (induction "lst - first" arbitrary: first dest result carry buffer rule: less_induct)
  case less
  show ?case
  proof (cases "first < lst")
    case False
    then show ?thesis by (simp add: scan_with_buffer_done)
  next
    case True
    obtain c' b' d' where run:
      "scan_tile inclusive cv W G src first lst dest result carry f buffer uninit = (c', b', d')"
      by (cases "scan_tile inclusive cv W G src first lst dest result carry f buffer uninit")
    note tile = scan_tile_closed(3) [OF W run]
    have WG: "0 < W * G" using W G by simp
    then have "lst - (first + W * G) < lst - first" using True by arith
    from less [OF this, of d' "result + W * G" c' b']
    obtain d where
      ret: "scan_with_buffer inclusive cv W G src (first + W * G) lst d' (result + W * G) c' f b'
              uninit = Some d"
      and frame: "\<forall>a. \<not> (result + W * G \<le> a \<and> a < result + W * G + (lst - (first + W * G))) \<longrightarrow>
                    d a = d' a"
      by blast
    have "scan_with_buffer inclusive cv W G src first lst dest result carry f buffer uninit = Some d"
      using scan_with_buffer_step [OF True run] ret by simp
    moreover have "\<forall>a. \<not> (result \<le> a \<and> a < result + (lst - first)) \<longrightarrow> d a = dest a"
    proof (intro allI impI)
      fix a assume a: "\<not> (result \<le> a \<and> a < result + (lst - first))"
      then have "\<not> (result + W * G \<le> a \<and> a < result + W * G + (lst - (first + W * G)))"
        by arith
      then have "d a = d' a" using frame by blast
      moreover have "\<not> (result \<le> a \<and> a < result + nat (partition_size_of W G first lst))"
        using a partition_size_le(2) [of W G first lst] by arith
      then have "d' a = dest a" using tile by blast
      ultimately show "d a = dest a" by simp
    qed
    ultimately show ?thesis by blast
  qed
qed

lemma scan_with_buffer_first_tile:
  assumes W: "0 < W" and G: "0 < G" and lt: "first < lst"
    and run: "scan_tile inclusive cv W G src first lst dest result carry f buffer uninit =
                (c', b', d')"
  shows "\<exists>d. scan_with_buffer inclusive cv W G src first lst dest result carry f buffer uninit =
               Some d
           \<and> (\<forall>a. a < result + W * G \<longrightarrow> d a = d' a)"
proof -
  from scan_with_buffer_frame [OF W G, of inclusive cv src "first + W * G" lst d'
      "result + W * G" c' f b' uninit]
  obtain d where
    ret: "scan_with_buffer inclusive cv W G src (first + W * G) lst d' (result + W * G) c' f b'
            uninit = Some d"
    and frame: "\<forall>a. \<not> (result + W * G \<le> a \<and> a < result + W * G + (lst - (first + W * G))) \<longrightarrow>
                  d a = d' a"
    by blast
  have "scan_with_buffer inclusive cv W G src first lst dest result carry f buffer uninit = Some d"
    using scan_with_buffer_step [OF lt run] ret by simp
  moreover have "\<forall>a. a < result + W * G \<longrightarrow> d a = d' a"
    using frame by simp
  ultimately show ?thesis by blast
qed

text \<open>
  For a range of fewer than \<open>2 ^ 31\<close> elements the result does not depend on what the
  scratch buffer and the private variables held.
\<close>

lemma scan_with_buffer_indep:
  assumes W: "0 < W" and G: "0 < G"
  shows "lst - first < 2 ^ 31 \<Longrightarrow>
         scan_with_buffer inclusive cv W G src first lst dest result carry f buffer1 uninit1 =
         scan_with_buffer inclusive cv W G src first lst dest result carry f buffer2 uninit2"
proof (induction "lst - first" arbitrary: first dest result carry buffer1 buffer2 rule: less_induct)
  case less
  show ?case
  proof (cases "first < lst")
    case False
    then show ?thesis by (simp add: scan_with_buffer_done)
  next
    case True
    obtain c1 b1 d1 where run1:
      "scan_tile inclusive cv W G src first lst dest result carry f buffer1 uninit1 = (c1, b1, d1)"
      by (cases "scan_tile inclusive cv W G src first lst dest result carry f buffer1 uninit1")
    obtain c2 b2 d2 where run2:
      "scan_tile inclusive cv W G src first lst dest result carry f buffer2 uninit2 = (c2, b2, d2)"
      by (cases "scan_tile inclusive cv W G src first lst dest result carry f buffer2 uninit2")
    note ind = scan_tile_indep [OF W G run1 run2]
    have WG: "0 < W * G" using W G by simp
    show ?thesis
    proof (cases "W * G \<le> lst - first")
      case full: True
      with partition_size_small [OF less.prems, of W G]
      have "partition_size_of W G first lst = int (W * G)" by (simp only: min_absorb1)
      then have "nat (partition_size_of W G first lst) = W * G" by (simp only: nat_int)
      with ind have c: "c1 = c2" by simp
      have smaller: "lst - (first + W * G) < lst - first" using True WG by arith
      then have "lst - (first + W * G) < 2 ^ 31" using less.prems by simp
      from less.hyps [OF smaller this] show ?thesis
        unfolding scan_with_buffer_step [OF True run1] scan_with_buffer_step [OF True run2]
        by (simp add: ind(1) c)
    next
      case False
      then have "\<not> first + W * G < lst" by simp
      then show ?thesis
        unfolding scan_with_buffer_step [OF True run1] scan_with_buffer_step [OF True run2]
        by (simp add: scan_with_buffer_done ind(1))
    qed
  qed
qed

text \<open>
  With \<open>groupsize * grainsize = 0\<close> and a non-empty range the loop does not return, for
  any scratch contents.
\<close>

lemma scan_with_buffer_returns_only_if:
  fixes cv :: "('i, 't) conversions"
  assumes "scan_with_buffer inclusive cv W G src first lst dest result carry f buffer uninit =
             Some d"
  shows "\<not> (W * G = 0 \<and> first < lst)"
proof (rule scan_with_buffer.raw_induct
    [where P = "\<lambda>inclusive cv W G src first lst dest result carry f buffer uninit y.
                  \<not> (W * G = 0 \<and> first < lst)", OF _ assms])
  fix swb :: "bool \<Rightarrow> ('i, 't) conversions \<Rightarrow> nat \<Rightarrow> nat \<Rightarrow> 'i mem \<Rightarrow> nat \<Rightarrow> nat \<Rightarrow> 't mem \<Rightarrow> nat
     \<Rightarrow> 't \<Rightarrow> ('t \<Rightarrow> 't \<Rightarrow> 't) \<Rightarrow> ('i, 't) scan_buffer \<Rightarrow> (nat \<Rightarrow> nat \<Rightarrow> 'i mem \<times> 'i)
     \<Rightarrow> 't mem option"
  fix inclusive cv W G src first lst dest result carry f buffer uninit y
  assume IH: "\<And>inclusive cv W G src first lst dest result carry f buffer uninit y.
      swb inclusive cv W G src first lst dest result carry f buffer uninit = Some y \<Longrightarrow>
      \<not> (W * G = 0 \<and> first < lst)"
  assume body: "(if first < lst
      then case scan_tile inclusive cv W G src first lst dest result carry f buffer uninit of
           (carry_out, buffer', dest') \<Rightarrow>
             swb inclusive cv W G src (first + W * G) lst dest' (result + W * G) carry_out f
               buffer' uninit
      else Some dest) = Some y"
  show "\<not> (W * G = 0 \<and> first < lst)"
  proof
    assume a: "W * G = 0 \<and> first < lst"
    obtain c' b' d' where run:
      "scan_tile inclusive cv W G src first lst dest result carry f buffer uninit = (c', b', d')"
      by (cases "scan_tile inclusive cv W G src first lst dest result carry f buffer uninit")
    from a have z: "W * G = 0" and lt: "first < lst" by blast+
    from body lt run
    have "swb inclusive cv W G src (first + W * G) lst d' (result + W * G) c' f b' uninit = Some y"
      by simp
    from IH [OF this] z have "\<not> first + W * G < lst" by blast
    with lt z show False by linarith
  qed
qed

lemma scan_with_buffer_diverges:
  "W * G = 0 \<Longrightarrow> first < lst \<Longrightarrow>
   scan_with_buffer inclusive cv W G src first lst dest result carry f buffer uninit = None"
  using scan_with_buffer_returns_only_if
    [of inclusive cv W G src first lst dest result carry f buffer uninit]
  by (cases "scan_with_buffer inclusive cv W G src first lst dest result carry f buffer uninit")
     auto

lemma scan_with_buffer_indep_all:
  assumes "lst - first < 2 ^ 31"
  shows "scan_with_buffer inclusive cv W G src first lst dest result carry f buffer1 uninit1 =
         scan_with_buffer inclusive cv W G src first lst dest result carry f buffer2 uninit2"
proof (cases "0 < W \<and> 0 < G")
  case True
  then show ?thesis using assms by (simp add: scan_with_buffer_indep)
next
  case False
  then have z: "W * G = 0" by auto
  show ?thesis
  proof (cases "first < lst")
    case True
    with z show ?thesis by (simp add: scan_with_buffer_diverges)
  next
    case False
    then show ?thesis by (simp add: scan_with_buffer_done)
  qed
qed

lemma scan_with_buffer_correct:
  assumes assoc: "associative f" and ll: "lossless cv" and W: "0 < W" and G: "0 < G"
  shows "lst - first < 2 ^ 31 \<Longrightarrow>
         \<exists>d. scan_with_buffer inclusive cv W G src first lst dest result carry f buffer uninit =
               Some d
           \<and> (\<forall>j<lst - first. d (result + j) =
                 foldl f carry (map (\<lambda>a. to_intermediate cv (src a))
                                  [first..<first + j + (if inclusive then 1 else 0)]))
           \<and> (\<forall>a. \<not> (result \<le> a \<and> a < result + (lst - first)) \<longrightarrow> d a = dest a)"
proof (induction "lst - first" arbitrary: first dest result carry buffer rule: less_induct)
  case less
  show ?case
  proof (cases "first < lst")
    case False
    then show ?thesis by (simp add: scan_with_buffer_done)
  next
    case True
    let ?d = "if inclusive then 1 else 0::nat"
    let ?E = "\<lambda>a. to_intermediate cv (src a)"
    obtain c' b' d' where run:
      "scan_tile inclusive cv W G src first lst dest result carry f buffer uninit = (c', b', d')"
      by (cases "scan_tile inclusive cv W G src first lst dest result carry f buffer uninit")
    note tile = scan_tile_correct [OF assoc ll W G less.prems run]
    have WG: "0 < W * G" using W G by simp
    then have smaller: "lst - (first + W * G) < lst - first" using True by arith
    then have "lst - (first + W * G) < 2 ^ 31" using less.prems by simp
    from less.hyps [OF smaller this, of d' "result + W * G" c' b']
    obtain d where
      ret: "scan_with_buffer inclusive cv W G src (first + W * G) lst d' (result + W * G) c' f b'
              uninit = Some d"
      and val: "\<forall>j<lst - (first + W * G). d (result + W * G + j) =
                 foldl f c' (map ?E [first + W * G..<first + W * G + j + ?d])"
      and frame: "\<forall>a. \<not> (result + W * G \<le> a \<and> a < result + W * G + (lst - (first + W * G))) \<longrightarrow>
                    d a = d' a"
      by blast
    have "scan_with_buffer inclusive cv W G src first lst dest result carry f buffer uninit = Some d"
      using scan_with_buffer_step [OF True run] ret by simp
    moreover have "\<forall>j<lst - first. d (result + j) = foldl f carry (map ?E [first..<first + j + ?d])"
    proof (intro allI impI)
      fix j assume j: "j < lst - first"
      show "d (result + j) = foldl f carry (map ?E [first..<first + j + ?d])"
      proof (cases "j < W * G")
        case True
        then have "d (result + j) = d' (result + j)" using frame by simp
        with tile(1) True j show ?thesis by simp
      next
        case False
        define k where "k = j - W * G"
        from False have jk: "j = W * G + k" by (simp add: k_def)
        with j have k: "k < lst - (first + W * G)" by simp
        from j False have "W * G \<le> lst - first" by simp
        with tile(3) have c': "c' = foldl f carry (map ?E [first..<first + W * G])" by simp
        have "d (result + j) = foldl f c' (map ?E [first + W * G..<first + W * G + k + ?d])"
          using val k by (simp add: jk add.assoc)
        also have "\<dots> = foldl f carry (map ?E [first..<first + W * G + k + ?d])"
          unfolding c' by (rule foldl_upt_split) simp_all
        finally show ?thesis by (simp add: jk add.assoc)
      qed
    qed
    moreover have "\<forall>a. \<not> (result \<le> a \<and> a < result + (lst - first)) \<longrightarrow> d a = dest a"
    proof (intro allI impI)
      fix a assume a: "\<not> (result \<le> a \<and> a < result + (lst - first))"
      then have "\<not> (result + W * G \<le> a \<and> a < result + W * G + (lst - (first + W * G)))"
        by arith
      then have "d a = d' a" using frame by blast
      moreover have "d' a = dest a" using tile(2) a by auto
      ultimately show "d a = dest a" by simp
    qed
    ultimately show ?thesis by blast
  qed
qed



section \<open>Reference scans and the loop variables\<close>

lemma fold1_range:
  assumes "associative f" "a < b"
  shows "f c (fold1 f (map src [a..<b])) = foldl f c (map src [a..<b])"
proof -
  from assms(2) have "[a..<b] = a # [Suc a..<b]" by (rule upt_conv_Cons)
  then show ?thesis by (simp add: foldl_assoc [OF assms(1)])
qed

lemma take_input_range:
  assumes "n \<le> lst - first"
  shows "take n (input_range src first lst) = map src [first..<first + n]"
proof (cases "n = 0")
  case True
  then show ?thesis by simp
next
  case False
  with assms have "first + n \<le> lst" by arith
  then have "take n [first..<lst] = [first..<first + n]" by (rule take_upt)
  then show ?thesis by (simp add: input_range_def take_map)
qed


lemma sequential_inclusive_scan_length [simp]:
  "length (sequential_inclusive_scan f acc xs) = length xs"
  by (induction xs arbitrary: acc) simp_all

lemma sequential_exclusive_scan_length [simp]:
  "length (sequential_exclusive_scan f acc xs) = length xs"
  by (induction xs arbitrary: acc) simp_all




lemma inclusive_scan_eq:
  "inclusive_scan cv W G src first lst dest result init f allocated uninit =
   scan_with_buffer True cv W G src first lst dest result init f (block allocated) uninit"
  by (simp add: inclusive_scan_def on_chip_cast_def)

lemma exclusive_scan_eq:
  "exclusive_scan cv W G src first lst dest result init f allocated uninit =
   scan_with_buffer False cv W G src first lst dest result init f (block allocated) uninit"
  by (simp add: exclusive_scan_def on_chip_cast_def)

lemma worker0_store:
  "snd (for_each_worker n (\<lambda>tid d. ((), if tid = 0 then d(p := v) else d)) dest) =
     (if 0 < n then dest(p := v) else dest)"
  by (induction n) (auto simp: split_beta)

lemma lossless_same_type: "lossless same_type"
  by (simp add: lossless_def same_type_def)



lemma small_scan_fold:
  assumes assoc: "associative f" and sz: "0 < sz" and dis: "disjoint_regions sz first buffer"
    and run: "small_inplace_exclusive_scan_with_buffer sz m first init buffer f = (r, m')"
  shows "r = foldl f init (map m [first..<first + sz])"
    and "\<forall>t<sz. m' (first + t) = foldl f init (map m [first..<first + t])"
proof -
  let ?v = "\<lambda>t. m (first + t)"
  have V: "(\<lambda>t. if t = 0 then f init (m first) else m (first + t)) =
           (\<lambda>t. if t = 0 then f init (?v 0) else ?v t)"
    by (auto simp: fun_eq_iff)
  note closed = small_scan_closed [OF dis sz run, unfolded V]
  have H: "hs_rounds sz f 1 (\<lambda>t. if t = 0 then f init (?v 0) else ?v t) t =
             foldl f init (map m [first..<first + Suc t])" if "t < sz" for t
    using hs_rounds_fold [OF assoc that, of init ?v] map_shift [of m first "Suc t"] by simp
  show "r = foldl f init (map m [first..<first + sz])"
    using closed(1) H [of "sz - 1"] sz by simp
  show "\<forall>t<sz. m' (first + t) = foldl f init (map m [first..<first + t])"
  proof (intro allI impI)
    fix t assume t: "t < sz"
    from closed(2) t have e: "m' (first + t) = (if t = 0 then init
        else hs_rounds sz f 1 (\<lambda>t. if t = 0 then f init (?v 0) else ?v t) (t - 1))"
      by blast
    show "m' (first + t) = foldl f init (map m [first..<first + t])"
    proof (cases t)
      case 0
      then show ?thesis using e by simp
    next
      case (Suc u)
      with t have "u < sz" by simp
      from H [OF this] e Suc show ?thesis by simp
    qed
  qed
qed


lemma scan_tile_carry:
  assumes "0 < W"
  shows "fst (scan_tile inclusive cv W G src first lst dest result carry f buffer uninit) =
         tile_scanned f W carry
           (tile_sums cv f W G (\<lambda>j. src (first + j)) (partition_size_of W G first lst)
              (\<lambda>t. snd (uninit first t)) (sums buffer)) (W - 1)"
proof -
  obtain c' b' d' where run:
    "scan_tile inclusive cv W G src first lst dest result carry f buffer uninit = (c', b', d')"
    by (cases "scan_tile inclusive cv W G src first lst dest result carry f buffer uninit")
  from scan_tile_closed(1) [OF assms run] show ?thesis by (simp add: run)
qed

lemma scan_with_buffer_first_values:
  assumes W: "0 < W" and G: "0 < G" and lt: "first < lst"
  shows "\<exists>d. scan_with_buffer inclusive cv W G src first lst dest result carry f buffer uninit =
               Some d
           \<and> (\<forall>j. j < nat (partition_size_of W G first lst) \<longrightarrow>
                 d (result + j) =
                   tile_out inclusive cv f G (\<lambda>j. src (first + j))
                     (tile_prefix f W carry
                        (tile_sums cv f W G (\<lambda>j. src (first + j))
                           (partition_size_of W G first lst) (\<lambda>t. snd (uninit first t))
                           (sums buffer))) j)
           \<and> (\<forall>a. a < result + W * G \<and>
                   \<not> (result \<le> a \<and> a < result + nat (partition_size_of W G first lst)) \<longrightarrow>
                 d a = dest a)"
proof -
  obtain c' b' d' where run:
    "scan_tile inclusive cv W G src first lst dest result carry f buffer uninit = (c', b', d')"
    by (cases "scan_tile inclusive cv W G src first lst dest result carry f buffer uninit")
  note closed = scan_tile_closed [OF W run]
  have le: "nat (partition_size_of W G first lst) \<le> W * G" by (rule partition_size_le)
  from scan_with_buffer_first_tile [OF W G lt run]
  obtain d where
    ret: "scan_with_buffer inclusive cv W G src first lst dest result carry f buffer uninit =
            Some d"
    and keep: "\<forall>a. a < result + W * G \<longrightarrow> d a = d' a"
    by blast
  have "\<forall>j. j < nat (partition_size_of W G first lst) \<longrightarrow>
          d (result + j) =
            tile_out inclusive cv f G (\<lambda>j. src (first + j))
              (tile_prefix f W carry
                 (tile_sums cv f W G (\<lambda>j. src (first + j))
                    (partition_size_of W G first lst) (\<lambda>t. snd (uninit first t))
                    (sums buffer))) j"
  proof (intro allI impI)
    fix j assume j: "j < nat (partition_size_of W G first lst)"
    with le have "result + j < result + W * G" by simp
    with keep have "d (result + j) = d' (result + j)" by blast
    with closed(2) j show "d (result + j) =
            tile_out inclusive cv f G (\<lambda>j. src (first + j))
              (tile_prefix f W carry
                 (tile_sums cv f W G (\<lambda>j. src (first + j))
                    (partition_size_of W G first lst) (\<lambda>t. snd (uninit first t))
                    (sums buffer))) j"
      by simp
  qed
  moreover have "\<forall>a. a < result + W * G \<and>
                   \<not> (result \<le> a \<and> a < result + nat (partition_size_of W G first lst)) \<longrightarrow>
                 d a = dest a"
    using keep closed(3) by simp
  ultimately show ?thesis using ret by blast
qed




lemma partition_size_long: "partition_size_of (Suc 0) 2 0 long_range = - (2 ^ 31)"
  by (simp add: partition_size_of_def to_size_type_def long_range_def)


lemma local_size_long: "local_size_of 2 (- 2147483648) 0 = 0"
  by (simp add: local_size_of_def to_size_type_def)

lemma long_range_positive: "0 < long_range" "2 < long_range"
  by (simp_all add: long_range_def)



lemma tile_scanned_one: "tile_scanned f (Suc 0) c s 0 = f c (s 0)"
  unfolding tile_scanned_def by (subst hs_rounds.simps) simp


lemma tile_out_first:
  "tile_out False cv f G e P 0 = to_intermediate cv (to_input cv (P 0))"
  by (simp add: tile_out_def)



lemma long_scan_first_carry:
  "fst (scan_tile inclusive same_type 1 2 ones_src 0 long_range dest 0 init (+)
          (block (example_allocation shared junk)) example_uninit) = init + junk"
  by (simp add: scan_tile_carry partition_size_long local_size_long tile_scanned_one
        tile_sums_def example_allocation_def)

lemma long_scan_third_output:
  "\<exists>d. scan_with_buffer False same_type 1 2 ones_src 0 long_range example_dest 0 init (+)
          (block (example_allocation shared junk)) example_uninit = Some d
       \<and> d 2 = init + junk"
proof -
  obtain c' b' d' where run:
    "scan_tile False same_type 1 2 ones_src 0 long_range example_dest 0 init (+)
       (block (example_allocation shared junk)) example_uninit = (c', b', d')"
    by (cases "scan_tile False same_type 1 2 ones_src 0 long_range example_dest 0 init (+)
       (block (example_allocation shared junk)) example_uninit")
  have c': "c' = init + junk"
    using long_scan_first_carry [of False example_dest init shared junk] unfolding run by simp
  have step: "scan_with_buffer False same_type 1 2 ones_src 0 long_range example_dest 0 init (+)
       (block (example_allocation shared junk)) example_uninit =
     scan_with_buffer False same_type 1 2 ones_src (0 + 1 * 2) long_range d' (0 + 1 * 2) c' (+)
       b' example_uninit"
    using long_range_positive(1) run by (rule scan_with_buffer_step)
  have lt: "0 + 1 * 2 < long_range" using long_range_positive(2) by simp
  from scan_with_buffer_first_values [of 1 2 "0 + 1 * 2" long_range False same_type ones_src d'
      "0 + 1 * 2" c' "(+)" b' example_uninit, OF _ _ lt]
  obtain d where
    ret: "scan_with_buffer False same_type 1 2 ones_src (0 + 1 * 2) long_range d' (0 + 1 * 2) c'
            (+) b' example_uninit = Some d"
    and val: "\<forall>j. j < nat (partition_size_of 1 2 (0 + 1 * 2) long_range) \<longrightarrow>
                 d (0 + 1 * 2 + j) =
                   tile_out False same_type (+) 2 (\<lambda>j. ones_src (0 + 1 * 2 + j))
                     (tile_prefix (+) 1 c'
                        (tile_sums same_type (+) 1 2 (\<lambda>j. ones_src (0 + 1 * 2 + j))
                           (partition_size_of 1 2 (0 + 1 * 2) long_range)
                           (\<lambda>t. snd (example_uninit (0 + 1 * 2) t)) (sums b'))) j"
    by auto
  have "nat (partition_size_of 1 2 (0 + 1 * 2) long_range) = 2"
    by (simp add: partition_size_of_def to_size_type_def long_range_def)
  then have j0: "0 < nat (partition_size_of 1 2 (0 + 1 * 2) long_range)" by simp
  have "d (0 + 1 * 2 + 0) = init + junk"
    unfolding val [rule_format, OF j0]
    by (simp add: tile_out_first tile_prefix_def same_type_def c')
  then have "d 2 = init + junk" by (simp add: numeral_2_eq_2)
  with ret step show ?thesis by simp
qed


section \<open>The claims\<close>








text \<open>
  Claim C3.  For a power of two \<open>sz\<close> of workers, an associative \<open>binary_op\<close> and two
  ranges of \<open>sz\<close> elements at \<open>first\<close> and \<open>buffer\<close> that do not overlap,
  \<open>small_inplace_exclusive_scan_with_buffer\<close> returns \<open>binary_op init\<close> applied to the
  fold of the \<open>sz\<close> values at \<open>first\<close>, and leaves \<open>init\<close> at index 0 and, at every index
  \<open>i > 0\<close>, \<open>binary_op init\<close> applied to the fold of the values before index \<open>i\<close>.
\<close>

theorem small_scan_total_and_prefixes:
  assumes "associative binary_op" "sz = 2 ^ k" "disjoint_regions sz first buffer"
    and "small_inplace_exclusive_scan_with_buffer sz m first init buffer binary_op = (result, m')"
  shows "result = binary_op init (fold1 binary_op (input_range m first (first + sz)))
       \<and> m' (first + 0) = init
       \<and> (\<forall>i. 0 < i \<and> i < sz \<longrightarrow>
             m' (first + i) =
               binary_op init (fold1 binary_op (take i (input_range m first (first + sz)))))"
proof -
  from assms(2) have sz: "0 < sz" by simp
  note fold = small_scan_fold [OF assms(1) sz assms(3,4)]
  have "result = binary_op init (fold1 binary_op (input_range m first (first + sz)))"
    using fold(1) fold1_range [OF assms(1), of first "first + sz" init m] sz
    by (simp add: input_range_def)
  moreover have "m' (first + 0) = init"
    using fold(2) sz by (metis foldl_Nil list.simps(8) upt_eq_Nil_conv add.right_neutral le_refl)
  moreover have "m' (first + i) =
      binary_op init (fold1 binary_op (take i (input_range m first (first + sz))))"
    if "0 < i" "i < sz" for i
  proof -
    have "take i (input_range m first (first + sz)) = map m [first..<first + i]"
      using that by (intro take_input_range) simp
    moreover have "binary_op init (fold1 binary_op (map m [first..<first + i])) =
        foldl binary_op init (map m [first..<first + i])"
      using that by (intro fold1_range [OF assms(1)]) simp
    ultimately show ?thesis using fold(2) that by simp
  qed
  ultimately show ?thesis by blast
qed

text \<open>Four workers on the values 3, 4, 5, 6 with the carry 10.\<close>

theorem small_scan_total_and_prefixes_witness:
  "fst (small_inplace_exclusive_scan_with_buffer 4 example_sums 0 10 4 (+)) = 28
   \<and> map (snd (small_inplace_exclusive_scan_with_buffer 4 example_sums 0 10 4 (+))) [0..<4]
       = [10, 13, 17, 22]"
proof -
  obtain result m' where
    run: "small_inplace_exclusive_scan_with_buffer 4 example_sums 0 10 4 (+) = (result, m')"
    by (cases "small_inplace_exclusive_scan_with_buffer 4 example_sums 0 10 4 (+)")
  have a: "associative ((+) :: int \<Rightarrow> int \<Rightarrow> int)" by (simp add: associative_def)
  have p: "(4::nat) = 2 ^ 2" by simp
  have d: "disjoint_regions 4 0 4" by (simp add: disjoint_regions_def)
  from small_scan_total_and_prefixes [OF a p d run]
  have "result = 28 \<and> m' 0 = 10 \<and> m' 1 = 13 \<and> m' 2 = 17 \<and> m' 3 = 22"
    by (simp add: input_range_def example_sums_def eval_nat_numeral)
  then show ?thesis unfolding run by (simp add: eval_nat_numeral)
qed





text \<open>
  Claim C5.  The overload of \<open>inclusive_scan\<close> without \<open>init\<close>, on a non-empty range of
  at most \<open>2 ^ 31\<close> elements, writes the first input element itself to the first
  destination slot and, at every position \<open>i \<ge> 1\<close>, the fold of the first \<open>i + 1\<close>
  input elements; it returns \<open>result + (last - first)\<close>.
\<close>

theorem inclusive_scan_no_init_first_verbatim:
  assumes "associative binary_op" "0 < groupsize" "0 < grainsize" "first < lst"
    and "lst - first \<le> 2 ^ 31"
  shows "\<exists>d. inclusive_scan_no_init groupsize grainsize src first lst dest result binary_op
                allocated uninit = Some (d, result + (lst - first))
           \<and> d result = src first
           \<and> (\<forall>i. 1 \<le> i \<and> i < lst - first \<longrightarrow>
                 d (result + i) = fold1 binary_op (take (Suc i) (input_range src first lst)))"
proof -
  let ?dest1 = "dest(result := src first)"
  have small: "lst - (first + 1) < 2 ^ 31" using assms(4,5) by simp
  from scan_with_buffer_correct [OF assms(1) lossless_same_type assms(2,3) small,
      of True src ?dest1 "result + 1" "src first" "block allocated" uninit]
  obtain d where
    ret: "scan_with_buffer True same_type groupsize grainsize src (first + 1) lst ?dest1
            (result + 1) (src first) binary_op (block allocated) uninit = Some d"
    and val: "\<forall>j<lst - (first + 1). d (result + 1 + j) =
                 foldl binary_op (src first) (map src [first + 1..<first + 1 + j + 1])"
    and frame: "\<forall>a. \<not> (result + 1 \<le> a \<and> a < result + 1 + (lst - (first + 1))) \<longrightarrow> d a = ?dest1 a"
    by (auto simp: same_type_def)
  have run: "inclusive_scan_no_init groupsize grainsize src first lst dest result binary_op
      allocated uninit = Some (d, result + (lst - first))"
    using assms(2,4) ret
    by (simp add: inclusive_scan_no_init_def worker0_store inclusive_scan_eq)
  have first_slot: "d result = src first"
    using frame by simp
  have rest: "d (result + i) = fold1 binary_op (take (Suc i) (input_range src first lst))"
    if "1 \<le> i" "i < lst - first" for i
  proof -
    from that(1) have "0 < i" by simp
    then obtain j where i: "i = Suc j" by (auto simp: gr0_conv_Suc)
    with that(2) have j: "j < lst - (first + 1)" by simp
    have "take (Suc i) (input_range src first lst) = map src [first..<first + Suc i]"
      using that(2) by (intro take_input_range) simp
    also have "[first..<first + Suc i] = first # [first + 1..<first + 1 + j + 1]"
      by (simp add: i upt_conv_Cons)
    finally have "fold1 binary_op (take (Suc i) (input_range src first lst)) =
        foldl binary_op (src first) (map src [first + 1..<first + 1 + j + 1])"
      by simp
    with val j show ?thesis by (simp add: i)
  qed
  from run first_slot rest show ?thesis by blast
qed

text \<open>Five elements in tiles of two, written at offset 1 of the destination.\<close>

theorem inclusive_scan_no_init_first_verbatim_witness:
  "\<exists>d. inclusive_scan_no_init 2 1 example_src 0 5 example_dest 1 (+)
          (example_allocation True 7) example_uninit = Some (d, 6)
       \<and> d 1 = 1 \<and> d 2 = 3 \<and> d 5 = 15"
proof -
  have a: "associative ((+) :: int \<Rightarrow> int \<Rightarrow> int)" by (simp add: associative_def)
  have lt: "(0::nat) < 5" and s: "(5::nat) - 0 \<le> 2 ^ 31" by simp_all
  from inclusive_scan_no_init_first_verbatim [where groupsize = 2 and grainsize = 1
      and src = example_src and dest = example_dest and result = 1
      and allocated = "example_allocation True 7" and uninit = example_uninit,
      OF a _ _ lt s]
  obtain d where
    ret: "inclusive_scan_no_init 2 1 example_src 0 5 example_dest 1 (+)
          (example_allocation True 7) example_uninit = Some (d, 1 + (5 - 0))"
    and first_slot: "d 1 = example_src 0"
    and rest: "\<forall>i. 1 \<le> i \<and> i < 5 - 0 \<longrightarrow>
                 d (1 + i) = fold1 (+) (take (Suc i) (input_range example_src 0 5))"
    by auto
  from rest [rule_format, of 1] rest [rule_format, of 4]
  have "d 2 = 3 \<and> d 5 = 15"
    by (simp add: input_range_def example_src_def eval_nat_numeral)
  with ret first_slot show ?thesis by (simp add: example_src_def)
qed

text \<open>
  Claim C5 as the specification states it, for every non-empty range, fails.  On
  \<open>2 ^ 31 + 1\<close> elements the scan of the elements after the first one has a length
  that is negative as a \<open>size_type\<close>: position 1, where the claim has the sum 2 of two
  elements, is never written.
\<close>

theorem inclusive_scan_no_init_first_verbatim_counterexample:
  "output_at (map_option fst (inclusive_scan_no_init 1 2 ones_src 0 (Suc long_range)
                example_dest 0 (+) (example_allocation True 7) example_uninit)) (0 + 1)
     = Some (- 1)
   \<and> output_at (map_option fst (inclusive_scan_no_init 1 2 ones_src 0 (Suc long_range)
                  example_dest 0 (+) (example_allocation True 7) example_uninit)) (0 + 1)
       \<noteq> Some (fold1 (+) (take (Suc 1) (input_range ones_src 0 (Suc long_range))))"
proof -
  have claimed: "fold1 (+) (take (Suc 1) (input_range ones_src 0 (Suc long_range))) = (2 :: int)"
    by (simp add: take_input_range long_range_def ones_src_def upt_rec)
  let ?dest1 = "example_dest(0 := ones_src 0)"
  have lt: "0 + 1 < Suc long_range" using long_range_positive(1) by simp
  from scan_with_buffer_first_values [of 1 2 "0 + 1" "Suc long_range" True same_type ones_src
      ?dest1 "0 + 1" "ones_src 0" "(+)" "block (example_allocation True 7)" example_uninit,
      OF _ _ lt]
  obtain d where
    ret: "scan_with_buffer True same_type 1 2 ones_src (0 + 1) (Suc long_range) ?dest1 (0 + 1)
            (ones_src 0) (+) (block (example_allocation True 7)) example_uninit = Some d"
    and keep: "\<forall>a. a < 0 + 1 + 1 * 2 \<and>
                   \<not> (0 + 1 \<le> a \<and> a < 0 + 1 + nat (partition_size_of 1 2 (0 + 1) (Suc long_range)))
                   \<longrightarrow> d a = ?dest1 a"
    by auto
  have "nat (partition_size_of 1 2 (0 + 1) (Suc long_range)) = 0"
    by (simp add: partition_size_of_def to_size_type_def long_range_def)
  with keep [rule_format, of 1] have "d 1 = - 1"
    by (simp add: example_dest_def)
  moreover have "inclusive_scan_no_init 1 2 ones_src 0 (Suc long_range) example_dest 0 (+)
      (example_allocation True 7) example_uninit = Some (d, 0 + (Suc long_range - 0))"
    using ret by (simp add: inclusive_scan_no_init_def worker0_store inclusive_scan_eq)
  ultimately have run: "output_at (map_option fst (inclusive_scan_no_init 1 2 ones_src 0
      (Suc long_range) example_dest 0 (+) (example_allocation True 7) example_uninit)) (0 + 1)
     = Some (- 1)"
    by (simp add: output_at_def)
  show ?thesis unfolding run claimed by simp
qed








text \<open>
  Claim C8.  On an empty range, \<open>first = last\<close>, the three entry points return with the
  destination store as it was.
\<close>

theorem empty_range_writes_nothing:
  "inclusive_scan cv groupsize grainsize src first first dest result init binary_op allocated
     uninit = Some dest
   \<and> exclusive_scan cv groupsize grainsize src first first dest result init binary_op allocated
       uninit = Some dest
   \<and> inclusive_scan_no_init groupsize grainsize src' first first dest' result binary_op'
       allocated' uninit' = Some (dest', result)"
  by (simp add: inclusive_scan_eq exclusive_scan_eq scan_with_buffer_done
        inclusive_scan_no_init_def)

text \<open>
  Claim C9.  Placement invariance, for every input of fewer than \<open>2 ^ 31\<close> elements: the
  scan with the scratch buffer in on-chip memory and the scan with it in the fallback
  pool give the same result (the same destination store, or no return for both),
  whatever the two memories and the private variables held before.
\<close>

theorem placement_invariance:
  assumes "lst - first < 2 ^ 31"
  shows "inclusive_scan cv groupsize grainsize src first lst dest result init binary_op
           \<lparr>is_shared = True, block = on_chip\<rparr> uninit =
         inclusive_scan cv groupsize grainsize src first lst dest result init binary_op
           \<lparr>is_shared = False, block = fallback\<rparr> uninit'
       \<and> exclusive_scan cv groupsize grainsize src first lst dest result init binary_op
           \<lparr>is_shared = True, block = on_chip\<rparr> uninit =
         exclusive_scan cv groupsize grainsize src first lst dest result init binary_op
           \<lparr>is_shared = False, block = fallback\<rparr> uninit'"
  using scan_with_buffer_indep_all [OF assms, of True cv groupsize grainsize src dest result init
      binary_op on_chip uninit fallback uninit']
    scan_with_buffer_indep_all [OF assms, of False cv groupsize grainsize src dest result init
      binary_op on_chip uninit fallback uninit']
  by (simp add: inclusive_scan_def exclusive_scan_def on_chip_cast_def)

text \<open>The scenario with two different fillings of the scratch buffer.\<close>

theorem placement_invariance_witness:
  "inclusive_scan same_type 2 2 example_src 0 5 example_dest 0 0 (+) (example_allocation True 7)
     example_uninit =
   inclusive_scan same_type 2 2 example_src 0 5 example_dest 0 0 (+) (example_allocation False 3)
     example_uninit
   \<and> exclusive_scan same_type 2 2 example_src 0 5 example_dest 0 0 (+) (example_allocation True 7)
     example_uninit =
   exclusive_scan same_type 2 2 example_src 0 5 example_dest 0 0 (+) (example_allocation False 3)
     example_uninit"
proof -
  have s: "(5::nat) - 0 < 2 ^ 31" by simp
  from placement_invariance [OF s, where cv = same_type and groupsize = 2 and grainsize = 2
      and src = example_src and dest = example_dest and result = 0 and init = 0
      and binary_op = "(+)" and on_chip = "block (example_allocation True 7)"
      and fallback = "block (example_allocation False 3)" and uninit = example_uninit
      and uninit' = example_uninit]
  show ?thesis by (simp add: example_allocation_def)
qed

text \<open>
  Claim C9 as the specification states it, for every input, fails.  On a range of
  \<open>2 ^ 31\<close> elements the first tile stores no sum and its carry takes in what \<open>sums[0]\<close>
  held: the exclusive scan leaves 7 at position 2 with an on-chip buffer that held 7
  and 3 with a buffer of the fallback pool that held 3.
\<close>

theorem placement_invariance_counterexample:
  "output_at (exclusive_scan same_type 1 2 ones_src 0 long_range example_dest 0 0 (+)
                (example_allocation True 7) example_uninit) 2 = Some 7
   \<and> output_at (exclusive_scan same_type 1 2 ones_src 0 long_range example_dest 0 0 (+)
                  (example_allocation False 3) example_uninit) 2 = Some 3
   \<and> exclusive_scan same_type 1 2 ones_src 0 long_range example_dest 0 0 (+)
       (example_allocation True 7) example_uninit
     \<noteq> exclusive_scan same_type 1 2 ones_src 0 long_range example_dest 0 0 (+)
         (example_allocation False 3) example_uninit"
proof -
  from long_scan_third_output [of 0 True 7]
  have on_chip: "output_at (exclusive_scan same_type 1 2 ones_src 0 long_range example_dest 0 0
      (+) (example_allocation True 7) example_uninit) 2 = Some 7"
    by (auto simp: output_at_def exclusive_scan_eq)
  from long_scan_third_output [of 0 False 3]
  have fallback: "output_at (exclusive_scan same_type 1 2 ones_src 0 long_range example_dest 0 0
      (+) (example_allocation False 3) example_uninit) 2 = Some 3"
    by (auto simp: output_at_def exclusive_scan_eq)
  have "exclusive_scan same_type 1 2 ones_src 0 long_range example_dest 0 0 (+)
       (example_allocation True 7) example_uninit
     \<noteq> exclusive_scan same_type 1 2 ones_src 0 long_range example_dest 0 0 (+)
         (example_allocation False 3) example_uninit"
  proof
    assume "exclusive_scan same_type 1 2 ones_src 0 long_range example_dest 0 0 (+)
       (example_allocation True 7) example_uninit
     = exclusive_scan same_type 1 2 ones_src 0 long_range example_dest 0 0 (+)
         (example_allocation False 3) example_uninit"
    with on_chip fallback show False by simp
  qed
  with on_chip fallback show ?thesis by blast
qed

text \<open>
  Claim C10.  On a partial final tile of a group with \<open>groupsize * grainsize\<close> in the
  range of \<open>size_type\<close>, a worker \<open>tid\<close> whose slice is empty, and every worker above it,
  has \<open>local_size = 0\<close> and its phase before the barrier leaves its slot of \<open>sums\<close> as
  it was, stale, for the small scan to read; the destination that the tile produces is
  the same for any two contents of the scratch buffer and of the private variables, so
  for any two values of the stale slots; and the loop ends with that destination, the
  total of the tile being used no more.
\<close>

theorem stale_sums_never_reach_destination:
  assumes "0 < groupsize" "0 < grainsize" "groupsize * grainsize \<le> 2 ^ 31"
    and "first < lst" "lst - first < groupsize * grainsize"
    and "tid < groupsize" "lst - first \<le> grainsize * tid"
  shows "partition_size_of groupsize grainsize first lst = int (lst - first)
       \<and> local_size_of grainsize (int (lst - first)) tid = 0
       \<and> (\<forall>tid'. tid \<le> tid' \<and> tid' < groupsize \<longrightarrow>
             local_size_of grainsize (int (lst - first)) tid' = 0)
       \<and> snd (for_each_worker groupsize
                 (local_sum_phase cv binary_op grainsize stage_inputs (int (lst - first))
                    (uninit first))
                 sums_mem) tid
           = sums_mem tid
       \<and> snd (snd (scan_tile inclusive cv groupsize grainsize src first lst dest result carry_in
                      binary_op buffer uninit)) =
         snd (snd (scan_tile inclusive cv groupsize grainsize src first lst dest result carry_in
                      binary_op buffer' uninit'))
       \<and> scan_with_buffer inclusive cv groupsize grainsize src first lst dest result carry_in
           binary_op buffer uninit =
         Some (snd (snd (scan_tile inclusive cv groupsize grainsize src first lst dest result
                           carry_in binary_op buffer uninit)))"
proof -
  from assms(3,5) have small: "lst - first < 2 ^ 31" by simp
  have partition: "partition_size_of groupsize grainsize first lst = int (lst - first)"
    using partition_size_small [OF small, of groupsize grainsize] assms(5)
    by (simp only: min_absorb2 less_imp_le)
  have idle: "local_size_of grainsize (int (lst - first)) tid' = 0"
    if "tid \<le> tid'" "tid' < groupsize" for tid'
  proof (rule local_size_of_idle)
    from that(1) have le: "grainsize * tid \<le> grainsize * tid'" by (rule mult_le_mono2)
    with assms(7) have "\<not> grainsize * tid' < lst - first" by linarith
    then show "\<not> grainsize * tid' < nat (int (lst - first))" by simp
    from that(2) assms(2) have "grainsize * tid' < grainsize * groupsize" by simp
    also have "\<dots> = groupsize * grainsize" by (rule mult.commute)
    also note assms(3)
    finally have "grainsize * tid' < 2 ^ 31" .
    then have "int (grainsize * tid') < 2 ^ 31"
      by (metis of_nat_less_iff of_nat_numeral of_nat_power)
    then have "- (2 ^ 31) \<le> int (lst - first) - int (grainsize * tid')" by simp
    then show "- (2 ^ 31) \<le> int (lst - first) - int grainsize * int tid'" by simp
  qed
  have slot: "snd (for_each_worker groupsize
                 (local_sum_phase cv binary_op grainsize stage_inputs (int (lst - first))
                    (uninit first))
                 sums_mem) tid
           = sums_mem tid"
    using idle [of tid] assms(6) by (simp add: local_sum_sweep)
  obtain c1 b1 d1 where run1:
    "scan_tile inclusive cv groupsize grainsize src first lst dest result carry_in binary_op
       buffer uninit = (c1, b1, d1)"
    by (cases "scan_tile inclusive cv groupsize grainsize src first lst dest result carry_in
       binary_op buffer uninit")
  obtain c2 b2 d2 where run2:
    "scan_tile inclusive cv groupsize grainsize src first lst dest result carry_in binary_op
       buffer' uninit' = (c2, b2, d2)"
    by (cases "scan_tile inclusive cv groupsize grainsize src first lst dest result carry_in
       binary_op buffer' uninit'")
  have same: "d1 = d2" by (rule scan_tile_indep(1) [OF assms(1,2) run1 run2])
  have "\<not> first + groupsize * grainsize < lst" using assms(5) by simp
  then have ends: "scan_with_buffer inclusive cv groupsize grainsize src first lst dest result
      carry_in binary_op buffer uninit = Some d1"
    using scan_with_buffer_step [OF assms(4) run1] by (simp add: scan_with_buffer_done)
  from partition idle slot same ends assms(6) show ?thesis by (simp add: run1 run2)
qed

text \<open>The last tile of the scenario: one element for two workers of grain two.\<close>

theorem stale_sums_never_reach_destination_witness:
  "partition_size_of 2 2 4 5 = 1
   \<and> local_size_of 2 1 1 = 0
   \<and> snd (snd (scan_tile True same_type 2 2 example_src 4 5 example_dest 4 10 (+)
                 (block (example_allocation True 7)) example_uninit)) =
     snd (snd (scan_tile True same_type 2 2 example_src 4 5 example_dest 4 10 (+)
                 (block (example_allocation False 3)) example_uninit))"
proof -
  have g: "(2::nat) * 2 \<le> 2 ^ 31" by simp
  from stale_sums_never_reach_destination [where groupsize = 2 and grainsize = 2
      and first = 4 and lst = 5 and tid = 1 and inclusive = True and cv = same_type
      and src = example_src
      and dest = example_dest and result = 4 and carry_in = 10 and binary_op = "(+)"
      and buffer = "block (example_allocation True 7)" and uninit = example_uninit
      and buffer' = "block (example_allocation False 3)" and uninit' = example_uninit, OF _ _ g]
  show ?thesis by simp
qed

end
